theory Spec2Isabelle
  imports Main
begin

section \<open>Time scale\<close>

text \<open>
  The script works with two kinds of time values: \<^verbatim>\<open>datetime\<close> objects (the clock
  reading \<^verbatim>\<open>now\<close>, the parsed expiry, the \<^verbatim>\<open>date\<close> column of the bars) and the strings
  \<^verbatim>\<open>YYYYMMDD HH:MM:SS\<close> kept in the log and sent as \<^verbatim>\<open>endDateTime\<close>. All of them are
  modelled on one scale of absolute time, in whole seconds. The clock reading, the dates
  of the bars and the spans the script subtracts (730 days, one minute) are instants and
  spans of absolute time, as in the code, where these objects carry a time zone and are
  compared and subtracted as instants. A cursor string is identified with the instant it
  denotes in the time zone of the bars; the bars carry whole seconds, so formatting a
  cursor with \<^verbatim>\<open>%Y%m%d %H:%M:%S\<close> loses nothing (in the one hour a year that daylight
  saving time repeats, a string denotes two instants; that hour is outside the model).

  The scale counts from the midnight before day 1 of \<^verbatim>\<open>date.toordinal\<close>, read at the
  fixed offset from UTC that \<^verbatim>\<open>replace(tzinfo=...)\<close> attaches to the parsed expiry (with
  pytz the first entry of the zone, 5 h 51 min behind UTC). On this scale the parsed
  expiry is the midnight that begins its date, and its comparisons with the clock
  reading and with the boundary of 730 days are the comparisons of instants the code
  makes. One value is moved by the choice: the string \<^verbatim>\<open>23:59:59\<close> of the expiry date is
  put on the scale at the same offset, while the gateway reads it in the zone of the
  bars, 9 minutes later under standard time and 51 minutes earlier under daylight
  saving time. The sub-second part of the clock is outside the model.
\<close>

definition is_leap :: "nat \<Rightarrow> bool" where
  "is_leap year = (year mod 4 = 0 \<and> (year mod 100 \<noteq> 0 \<or> year mod 400 = 0))"

definition days_before_year :: "nat \<Rightarrow> int" where
  "days_before_year year =
     (let y = int year - 1 in y * 365 + y div 4 - y div 100 + y div 400)"

definition days_in_month :: "nat \<Rightarrow> nat \<Rightarrow> nat" where
  "days_in_month year month =
     (if month = 2 \<and> is_leap year then 29
      else [31, 28, 31, 30, 31, 30, 31, 31, 30, 31, 30, 31] ! (month - 1))"

definition days_before_month :: "nat \<Rightarrow> nat \<Rightarrow> int" where
  "days_before_month year month =
     [0, 31, 59, 90, 120, 151, 181, 212, 243, 273, 304, 334] ! (month - 1)
       + (if 2 < month \<and> is_leap year then 1 else 0)"

definition ymd2ord :: "nat \<Rightarrow> nat \<Rightarrow> nat \<Rightarrow> int" where
  "ymd2ord year month day =
     days_before_year year + days_before_month year month + int day"

text \<open>Midnight at the start of a calendar day, and a time of day on it.\<close>

definition midnight :: "nat \<Rightarrow> nat \<Rightarrow> nat \<Rightarrow> int" where
  "midnight year month day = ymd2ord year month day * 86400"

definition hms :: "nat \<Rightarrow> nat \<Rightarrow> nat \<Rightarrow> int" where
  "hms h m s = int (h * 3600 + m * 60 + s)"

definition days :: "nat \<Rightarrow> int" where
  "days n = int n * 86400"

section \<open>Parsing the expiry: \<^verbatim>\<open>datetime.strptime(s, "%Y%m%d")\<close>\<close>

text \<open>
  \<^verbatim>\<open>strptime\<close> turns the format into the regular expression
  \<^verbatim>\<open>(?P<Y>\d\d\d\d)(?P<m>1[0-2]|0[1-9]|[1-9])(?P<d>3[0-1]|[1-2]\d|0[1-9]|[1-9]| [1-9])\<close>,
  takes the first match from the start of the string (alternatives in the order
  written, with backtracking), raises \<^verbatim>\<open>ValueError\<close> when there is none or when the
  match stops before the end of the string, and raises it again when the numbers are
  not a date. Each group below lists its matches in the order the engine tries them,
  with the rest of the string after each.
\<close>

definition digit :: "char \<Rightarrow> nat option" where
  "digit c =
     (let code = (of_char c :: nat)
      in if 48 \<le> code \<and> code \<le> 57 then Some (code - 48) else None)"

definition two_digits :: "(nat \<Rightarrow> nat \<Rightarrow> bool) \<Rightarrow> string \<Rightarrow> (nat \<times> string) list" where
  "two_digits ok s =
     (case s of
        a # b # r \<Rightarrow>
          (case (digit a, digit b) of
             (Some x, Some y) \<Rightarrow> if ok x y then [(10 * x + y, r)] else []
           | _ \<Rightarrow> [])
      | _ \<Rightarrow> [])"

definition one_digit :: "string \<Rightarrow> (nat \<times> string) list" where
  "one_digit s =
     (case s of
        a # r \<Rightarrow> (case digit a of Some x \<Rightarrow> if 1 \<le> x then [(x, r)] else [] | None \<Rightarrow> [])
      | [] \<Rightarrow> [])"

definition match_Y :: "string \<Rightarrow> (nat \<times> string) list" where
  "match_Y s =
     (case s of
        a # b # c # d # r \<Rightarrow>
          (case (digit a, digit b, digit c, digit d) of
             (Some w, Some x, Some y, Some z) \<Rightarrow> [(1000 * w + 100 * x + 10 * y + z, r)]
           | _ \<Rightarrow> [])
      | _ \<Rightarrow> [])"

definition match_m :: "string \<Rightarrow> (nat \<times> string) list" where
  "match_m s =
     two_digits (\<lambda>x y. x = 1 \<and> y \<le> 2) s
     @ two_digits (\<lambda>x y. x = 0 \<and> 1 \<le> y) s
     @ one_digit s"

definition match_d :: "string \<Rightarrow> (nat \<times> string) list" where
  "match_d s =
     two_digits (\<lambda>x y. x = 3 \<and> y \<le> 1) s
     @ two_digits (\<lambda>x y. x = 1 \<or> x = 2) s
     @ two_digits (\<lambda>x y. x = 0 \<and> 1 \<le> y) s
     @ one_digit s
     @ (case s of a # r \<Rightarrow> if a = CHR '' '' then one_digit r else [] | [] \<Rightarrow> [])"

definition strptime_Ymd :: "string \<Rightarrow> (nat \<times> nat \<times> nat) option" where
  "strptime_Ymd s =
     (case [(y, m, d, r3). (y, r1) \<leftarrow> match_Y s, (m, r2) \<leftarrow> match_m r1, (d, r3) \<leftarrow> match_d r2] of
        [] \<Rightarrow> None
      | (y, m, d, rest) # _ \<Rightarrow>
          if rest \<noteq> [] then None
          else if 1 \<le> y \<and> d \<le> days_in_month y m then Some (y, m, d)
          else None)"

section \<open>Contracts and the enumerator (lines 27 to 44)\<close>

record Contract =
  localSymbol :: string
  lastTradeDateOrContractMonth :: string

text \<open>
  The cascade of the two \<^verbatim>\<open>try\<close> blocks: the full date first, then the string with
  \<^verbatim>\<open>01\<close> appended; \<open>None\<close> is the \<^verbatim>\<open>continue\<close> (or the \<^verbatim>\<open>return\<close> of line 80).
\<close>

definition parse_expiry :: "string \<Rightarrow> int option" where
  "parse_expiry expiry_str =
     (case strptime_Ymd expiry_str of
        Some (y, m, d) \<Rightarrow> Some (midnight y m d)
      | None \<Rightarrow>
          (case strptime_Ymd (expiry_str @ ''01'') of
             Some (y, m, d) \<Rightarrow> Some (midnight y m d)
           | None \<Rightarrow> None))"

definition two_years_ago :: "int \<Rightarrow> int" where
  "two_years_ago now = now - days 730"

fun valid_contracts :: "int \<Rightarrow> Contract list \<Rightarrow> Contract list" where
  "valid_contracts now [] = []"
| "valid_contracts now (c # contracts) =
     (case parse_expiry (lastTradeDateOrContractMonth c) of
        None \<Rightarrow> valid_contracts now contracts
      | Some expiry_date \<Rightarrow>
          if expiry_date \<ge> two_years_ago now then c # valid_contracts now contracts
          else valid_contracts now contracts)"

section \<open>Bars, the checkpoint log and the files\<close>

text \<open>
  A bar is a row of \<^verbatim>\<open>util.df(bars)\<close>: its \<^verbatim>\<open>date\<close> and the remaining columns (open,
  high, low, close, volume, ...), kept abstract. \<^verbatim>\<open>end_dt\<close> is a string that is either
  empty (\<open>None\<close>, the API reads it as "now") or a time stamp.
\<close>

record 'v bar =
  date :: int
  ohlcv :: 'v

type_synonym cursor = "int option"

text \<open>
  What one call of \<^verbatim>\<open>ib.reqHistoricalData\<close> does: it raises, or it returns bars. The
  dates of the returned bars carry a time zone (\<open>Bars\<close>) or none (\<open>Naive\<close>): the library
  passes on what the gateway sends. The behaviour of the API over a run is the list of
  its answers to the successive calls, each a function of the call's arguments. A run
  that needs more answers than the list holds has not finished (\<open>None\<close>).
\<close>

datatype 'v response = Raises | Bars "'v bar list" | Naive "'v bar list"

type_synonym 'v api_call = "Contract \<Rightarrow> cursor \<Rightarrow> 'v response"

text \<open>
  The mutable state: the dictionary \<^verbatim>\<open>log\<close> in memory, the file
  \<^verbatim>\<open>fetch_log.json\<close> (\<open>None\<close> while it does not exist) and the CSV files by name.
\<close>

record 'v store =
  log :: "string \<rightharpoonup> int"
  log_file :: "(string \<rightharpoonup> int) option"
  files :: "string \<rightharpoonup> 'v bar list"

text \<open>
  The effects of the fetcher, in the order they happen, each with the store right after
  it. Sleeps are in milliseconds.
\<close>

datatype 'v event =
    Request cursor
  | Sleep nat
  | Append string "'v bar list"
  | Persist string int

type_synonym 'v step = "'v event \<times> 'v store"

text \<open>Lines 49 to 55: the log is loaded once, before any contract is fetched.\<close>

definition load_log :: "'v store \<Rightarrow> 'v store" where
  "load_log st = st\<lparr>log := (case log_file st of Some m \<Rightarrow> m | None \<Rightarrow> Map.empty)\<rparr>"

definition temp_file :: "string \<Rightarrow> string" where
  "temp_file local_symbol = local_symbol @ ''_temp.csv''"

text \<open>\<^verbatim>\<open>df.to_csv(temp_file, mode='a', header=header, index=False)\<close>\<close>

definition to_csv_append :: "string \<Rightarrow> 'v bar list \<Rightarrow> 'v store \<Rightarrow> 'v store" where
  "to_csv_append name df st =
     st\<lparr>files := (files st)(name \<mapsto> (case files st name of None \<Rightarrow> df | Some rows \<Rightarrow> rows @ df))\<rparr>"

text \<open>\<^verbatim>\<open>with open(log_file, 'w') as f: json.dump(log, f)\<close>\<close>

definition json_dump :: "'v store \<Rightarrow> 'v store" where
  "json_dump st = st\<lparr>log_file := Some (log st)\<rparr>"

definition min_date :: "'v bar list \<Rightarrow> int" where
  "min_date df = Min (set (map date df))"

section \<open>The fetcher (lines 58 to 150)\<close>

subsection \<open>The retry loop, lines 93 to 116\<close>

text \<open>
  \<^verbatim>\<open>for retry in range(max_retries)\<close>, as a recursion over the values of \<^verbatim>\<open>retry\<close> still
  to come. The loop ends with \<^verbatim>\<open>bars\<close> still \<^verbatim>\<open>None\<close> (only when the range is empty),
  with the bars of the first call that did not raise, or with the \<^verbatim>\<open>return\<close> of line
  116.
\<close>

datatype 'v fetched =
  Unassigned | Fetched "'v bar list" | FetchedNaive "'v bar list" | GaveUp

fun attempts ::
  "nat \<Rightarrow> nat list \<Rightarrow> Contract \<Rightarrow> cursor \<Rightarrow> 'v store \<Rightarrow> 'v api_call list
     \<Rightarrow> ('v fetched \<times> 'v step list \<times> 'v api_call list) option" where
  "attempts max_retries [] contract end_dt st api = Some (Unassigned, [], api)"
| "attempts max_retries (retry # rest) contract end_dt st [] = None"
| "attempts max_retries (retry # rest) contract end_dt st (call # api) =
     (case call contract end_dt of
        Bars bars \<Rightarrow> Some (Fetched bars, [(Request end_dt, st)], api)
      | Naive bars \<Rightarrow> Some (FetchedNaive bars, [(Request end_dt, st)], api)
      | Raises \<Rightarrow>
          if retry < max_retries - 1 then
            (case attempts max_retries rest contract end_dt st api of
               None \<Rightarrow> None
             | Some (r, steps, api') \<Rightarrow>
                 Some (r, (Request end_dt, st) # (Sleep (1000 * 2 ^ retry), st) # steps, api'))
          else Some (GaveUp, [(Request end_dt, st)], api))"

subsection \<open>One page, lines 118 to 150\<close>

text \<open>
  What the body of \<^verbatim>\<open>while True\<close> does with the bars of a request whose dates carry a
  time zone: it leaves the loop (\<open>Break\<close>) or goes round again with a new \<^verbatim>\<open>end_dt\<close>.
  The disk does not fail in the model: \<^verbatim>\<open>to_csv\<close> and \<^verbatim>\<open>json.dump\<close> always write.
\<close>

datatype verdict = Break | Next int

definition page ::
  "Contract \<Rightarrow> int \<Rightarrow> 'v store \<Rightarrow> 'v bar list \<Rightarrow> verdict \<times> 'v step list \<times> 'v store" where
  "page contract start_date st bars =
     (if bars = [] then (Break, [], st)
      else
        let df = filter (\<lambda>b. date b \<ge> start_date) bars in
        if df = [] then (Break, [], st)
        else
          let local_symbol = localSymbol contract;
              st1 = to_csv_append (temp_file local_symbol) df st;
              new_end_dt = min_date df - 60;
              st2 = st1\<lparr>log := (log st1)(local_symbol \<mapsto> new_end_dt)\<rparr>;
              st3 = json_dump st2;
              steps = [(Append (temp_file local_symbol) df, st1),
                       (Sleep 1100, st1),
                       (Persist local_symbol new_end_dt, st3)]
          in (if min_date df \<le> start_date then Break else Next new_end_dt, steps, st3))"

subsection \<open>The loop \<^verbatim>\<open>while True\<close>\<close>

text \<open>
  The ways a call of \<^verbatim>\<open>fetch_contract_data\<close> ends: a \<^verbatim>\<open>break\<close> of the loop (\<open>DONE\<close>), the
  \<^verbatim>\<open>return\<close> of line 116 (\<open>FAILED\<close>), the \<^verbatim>\<open>return\<close> of line 80 (\<open>UNPARSED\<close>), or an
  exception that nothing in the function catches (\<open>RAISED\<close>). Line 126 compares the
  dates of the bars with \<^verbatim>\<open>start_date\<close>, which carries a time zone; on dates without one
  pandas raises \<^verbatim>\<open>TypeError\<close>, before anything is written.
\<close>

datatype outcome = DONE | FAILED | RAISED | UNPARSED

lemma attempts_consumes:
  "attempts max_retries rs contract end_dt st api = Some (Fetched bars, steps, api')
     \<Longrightarrow> length api' < length api"
proof (induction rs arbitrary: api steps)
  case Nil
  then show ?case by simp
next
  case (Cons retry rest)
  show ?case
  proof (cases api)
    case Nil
    with Cons.prems show ?thesis by simp
  next
    case (Cons call api0)
    with Cons.prems Cons.IH [of api0] show ?thesis
      by (auto split: response.splits if_splits option.splits)
  qed
qed

function fetching ::
  "nat \<Rightarrow> Contract \<Rightarrow> int \<Rightarrow> cursor \<Rightarrow> 'v store \<Rightarrow> 'v api_call list
     \<Rightarrow> (outcome \<times> 'v step list \<times> 'v store \<times> 'v api_call list) option" where
  "fetching max_retries contract start_date end_dt st api =
     (case attempts max_retries [0..<max_retries] contract end_dt st api of
        None \<Rightarrow> None
      | Some (GaveUp, steps, api') \<Rightarrow> Some (FAILED, steps, st, api')
      | Some (Unassigned, steps, api') \<Rightarrow> Some (DONE, steps, st, api')
      | Some (FetchedNaive bars, steps, api') \<Rightarrow>
          if bars = [] then Some (DONE, steps, st, api') else Some (RAISED, steps, st, api')
      | Some (Fetched bars, steps, api') \<Rightarrow>
          (case page contract start_date st bars of
             (Break, steps', st') \<Rightarrow> Some (DONE, steps @ steps', st', api')
           | (Next new_end_dt, steps', st') \<Rightarrow>
               (case fetching max_retries contract start_date (Some new_end_dt) st' api' of
                  None \<Rightarrow> None
                | Some (outcome, steps'', st'', api'') \<Rightarrow>
                    Some (outcome, steps @ steps' @ steps'', st'', api''))))"
  by pat_completeness auto
termination
  by (relation "measure (\<lambda>(max_retries, contract, start_date, end_dt, st, api). length api)")
     (auto dest: attempts_consumes)

declare fetching.simps [simp del]

subsection \<open>\<^verbatim>\<open>fetch_contract_data\<close>\<close>

definition fetch_contract_data ::
  "int \<Rightarrow> Contract \<Rightarrow> nat \<Rightarrow> 'v store \<Rightarrow> 'v api_call list
     \<Rightarrow> (outcome \<times> 'v step list \<times> 'v store \<times> 'v api_call list) option" where
  "fetch_contract_data now contract max_retries st api =
     (let end_dt = log st (localSymbol contract) in
      case parse_expiry (lastTradeDateOrContractMonth contract) of
        None \<Rightarrow> Some (UNPARSED, [], st, api)
      | Some expiry_date \<Rightarrow>
          let end_dt = (if end_dt = None \<and> expiry_date < now
                        then Some (expiry_date + hms 23 59 59) else end_dt);
              start_date = now - days 730
          in fetching max_retries contract start_date end_dt st api)"

subsection \<open>The loop over the contracts, lines 152 to 166\<close>

text \<open>
  \<open>clock i\<close> is what \<^verbatim>\<open>datetime.now\<close> reads when the contract of index \<open>i\<close> is
  started. The call either returns or raises; the \<^verbatim>\<open>except\<close> of line 164 catches what it
  raises and the loop goes on with the next contract, as it does after a return.
\<close>

fun fetch_all ::
  "(nat \<Rightarrow> int) \<Rightarrow> nat \<Rightarrow> Contract list \<Rightarrow> 'v store \<Rightarrow> 'v api_call list
     \<Rightarrow> ((string \<times> outcome) list \<times> 'v step list \<times> 'v store \<times> 'v api_call list) option" where
  "fetch_all clock i [] st api = Some ([], [], st, api)"
| "fetch_all clock i (contract # rest) st api =
     (case fetch_contract_data (clock i) contract 3 st api of
        None \<Rightarrow> None
      | Some (outcome, steps, st', api') \<Rightarrow>
          (case fetch_all clock (Suc i) rest st' api' of
             None \<Rightarrow> None
           | Some (outcomes, steps', st'', api'') \<Rightarrow>
               Some ((localSymbol contract, outcome) # outcomes, steps @ steps', st'', api'')))"

section \<open>The merger (lines 168 to 186)\<close>

record 'v row = "'v bar" +
  contract :: string

definition tag :: "string \<Rightarrow> 'v bar \<Rightarrow> 'v row" where
  "tag local_symbol b = \<lparr>date = date b, ohlcv = ohlcv b, contract = local_symbol\<rparr>"

text \<open>
  The loop that fills \<^verbatim>\<open>all_data\<close>: a file that does not exist is passed over, and so
  is one without rows (\<^verbatim>\<open>df.empty\<close>, or \<^verbatim>\<open>read_csv\<close> raising on an empty file).
\<close>

fun all_data :: "Contract list \<Rightarrow> (string \<rightharpoonup> 'v bar list) \<Rightarrow> 'v row list list" where
  "all_data [] fs = []"
| "all_data (c # cs) fs =
     (case fs (temp_file (localSymbol c)) of
        None \<Rightarrow> all_data cs fs
      | Some df \<Rightarrow>
          if df \<noteq> [] then map (tag (localSymbol c)) df # all_data cs fs
          else all_data cs fs)"

text \<open>
  \<^verbatim>\<open>drop_duplicates()\<close> compares whole rows and keeps the first of equal rows
  (\<open>remdups\<close> keeps the last, hence the reversals). \<^verbatim>\<open>sort_values('date')\<close> orders by the
  one column; pandas does not promise an order among rows of equal date. They are left
  here in the order they had, and no theorem below depends on that order.
\<close>

definition drop_duplicates :: "'a list \<Rightarrow> 'a list" where
  "drop_duplicates xs = rev (remdups (rev xs))"

definition sort_values :: "'v row list \<Rightarrow> 'v row list" where
  "sort_values rows = sort_key date rows"

text \<open>
  The result is the file name's time stamp and the table written, or \<open>None\<close> when
  \<^verbatim>\<open>all_data\<close> is empty and nothing is written.
\<close>

definition merger ::
  "int \<Rightarrow> Contract list \<Rightarrow> (string \<rightharpoonup> 'v bar list) \<Rightarrow> (int \<times> 'v row list) option" where
  "merger now cs fs =
     (let tables = all_data cs fs in
      if tables = [] then None
      else Some (now, sort_values (drop_duplicates (concat tables))))"

section \<open>Observing a run\<close>

text \<open>
  What is on disk for a contract: the cursor in \<^verbatim>\<open>fetch_log.json\<close> and the rows of its CSV
  file. A missing log file holds no cursor, a missing CSV file no rows.
\<close>

definition disk :: "'v store \<Rightarrow> (string \<rightharpoonup> int)" where
  "disk st = (case log_file st of None \<Rightarrow> Map.empty | Some m \<Rightarrow> m)"

definition written :: "'v store \<Rightarrow> string \<Rightarrow> 'v bar list" where
  "written st local_symbol =
     (case files st (temp_file local_symbol) of None \<Rightarrow> [] | Some rows \<Rightarrow> rows)"

text \<open>The dictionary in memory agrees with the file, as it does right after loading.\<close>

definition synced :: "'v store \<Rightarrow> bool" where
  "synced st = (log st = disk st)"

text \<open>The invariant of the spec: no row of the contract's file is older than its cursor.\<close>

definition checkpoint_ok :: "string \<Rightarrow> 'v store \<Rightarrow> bool" where
  "checkpoint_ok local_symbol st =
     (case disk st local_symbol of
        None \<Rightarrow> True
      | Some t \<Rightarrow> list_all (\<lambda>b. t \<le> date b) (written st local_symbol))"

text \<open>
  The events after which a page is half done: its rows are in the file, its cursor is
  not yet in the log. (The sleeps of the retry loop last 1000, 2000, 4000, ... ms.)
\<close>

fun mid_page :: "'v event \<Rightarrow> bool" where
  "mid_page (Append name df) = True"
| "mid_page (Sleep ms) = (ms = 1100)"
| "mid_page (Request end_dt) = False"
| "mid_page (Persist local_symbol t) = False"

fun is_persist :: "'v event \<Rightarrow> bool" where
  "is_persist (Persist local_symbol t) = True"
| "is_persist (Append name df) = False"
| "is_persist (Sleep ms) = False"
| "is_persist (Request end_dt) = False"

text \<open>
  A trace follows the cursor \<open>t\<close> when every request asks for the current cursor and
  every cursor written to the log is at least a minute before the one it replaces.
\<close>

fun follows :: "int \<Rightarrow> 'v event list \<Rightarrow> bool" where
  "follows t [] = True"
| "follows t (Request end_dt # es) = (end_dt = Some t \<and> follows t es)"
| "follows t (Persist local_symbol t' # es) = (t' + 60 \<le> t \<and> follows t' es)"
| "follows t (Sleep ms # es) = follows t es"
| "follows t (Append name df # es) = follows t es"

fun requests :: "'v event list \<Rightarrow> cursor list" where
  "requests [] = []"
| "requests (Request end_dt # es) = end_dt # requests es"
| "requests (Persist local_symbol t # es) = requests es"
| "requests (Sleep ms # es) = requests es"
| "requests (Append name df # es) = requests es"

text \<open>
  What the retry loop returns for the answer that ends it: the bars of an attempt that
  did not raise, or the \<^verbatim>\<open>return\<close> of line 116 when the last attempt raised.
\<close>

fun fetched_of :: "'v response \<Rightarrow> 'v fetched" where
  "fetched_of (Bars bars) = Fetched bars"
| "fetched_of (Naive bars) = FetchedNaive bars"
| "fetched_of Raises = GaveUp"

text \<open>An answer of the API honours \<^verbatim>\<open>endDateTime\<close>: it holds no bar after it.\<close>

definition honours :: "'v api_call \<Rightarrow> bool" where
  "honours call =
     (\<forall>contract t bars. call contract (Some t) = Bars bars \<longrightarrow> list_all (\<lambda>b. date b \<le> t) bars)"

definition trace_of ::
  "(outcome \<times> 'v step list \<times> 'v store \<times> 'v api_call list) option \<Rightarrow> 'v step list" where
  "trace_of r = (case r of None \<Rightarrow> [] | Some (out, steps, st, api) \<Rightarrow> steps)"

text \<open>
  A store from which a contract can be resumed: no row of its file is older than the
  cursor in memory, and without a cursor the file has no rows.
\<close>

definition resumable :: "string \<Rightarrow> 'v store \<Rightarrow> bool" where
  "resumable local_symbol st =
     (case log st local_symbol of
        None \<Rightarrow> written st local_symbol = []
      | Some t \<Rightarrow> list_all (\<lambda>b. t \<le> date b) (written st local_symbol))"

section \<open>Example data\<close>

text \<open>Two contracts, a clock reading, and API answers used in the concrete runs below.\<close>

definition mesz5 :: Contract where
  "mesz5 = \<lparr>localSymbol = ''MESZ5'', lastTradeDateOrContractMonth = ''20251219''\<rparr>"

definition mesh6 :: Contract where
  "mesh6 = \<lparr>localSymbol = ''MESH6'', lastTradeDateOrContractMonth = ''20260320''\<rparr>"

definition mesx4 :: Contract where
  "mesx4 = \<lparr>localSymbol = ''MESX4'', lastTradeDateOrContractMonth = ''202411''\<rparr>"

definition raises :: "nat api_call" where
  "raises = (\<lambda>contract end_dt. Raises)"

text \<open>An API holding the bars \<open>bs\<close>, which answers with those not after \<^verbatim>\<open>endDateTime\<close>.\<close>

definition answers :: "nat bar list \<Rightarrow> nat api_call" where
  "answers bs =
     (\<lambda>contract end_dt.
        Bars (filter (\<lambda>b. case end_dt of None \<Rightarrow> True | Some t \<Rightarrow> date b \<le> t) bs))"

definition fresh :: "nat store" where
  "fresh = \<lparr>log = Map.empty, log_file = None, files = Map.empty\<rparr>"

definition today :: int where
  "today = midnight 2026 11 3"

text \<open>Two one-minute bars of 15 December 2025, and a store left by an earlier run.\<close>

definition week :: "nat bar list" where
  "week = [\<lparr>date = midnight 2025 12 15 + hms 9 30 0, ohlcv = 1\<rparr>,
           \<lparr>date = midnight 2025 12 15 + hms 9 31 0, ohlcv = 2\<rparr>]"

definition resumed :: "nat store" where
  "resumed =
     \<lparr>log = [''MESZ5'' \<mapsto> midnight 2025 12 16],
      log_file = Some [''MESZ5'' \<mapsto> midnight 2025 12 16, ''MESH6'' \<mapsto> midnight 2026 1 5],
      files = [''MESZ5_temp.csv'' \<mapsto> [\<lparr>date = midnight 2025 12 16 + hms 0 1 0, ohlcv = 3\<rparr>]]\<rparr>"

text \<open>The stores a first run and a resumed run of \<open>mesz5\<close> go through.\<close>

definition first_page :: "nat store" where
  "first_page = \<lparr>log = Map.empty, log_file = None, files = [''MESZ5_temp.csv'' \<mapsto> week]\<rparr>"

definition first_done :: "nat store" where
  "first_done =
     \<lparr>log = [''MESZ5'' \<mapsto> midnight 2025 12 15 + hms 9 29 0],
      log_file = Some [''MESZ5'' \<mapsto> midnight 2025 12 15 + hms 9 29 0],
      files = [''MESZ5_temp.csv'' \<mapsto> week]\<rparr>"

definition resumed_page :: "nat store" where
  "resumed_page =
     \<lparr>log = [''MESZ5'' \<mapsto> midnight 2025 12 16, ''MESH6'' \<mapsto> midnight 2026 1 5],
      log_file = Some [''MESZ5'' \<mapsto> midnight 2025 12 16, ''MESH6'' \<mapsto> midnight 2026 1 5],
      files = [''MESZ5_temp.csv'' \<mapsto>
                 \<lparr>date = midnight 2025 12 16 + hms 0 1 0, ohlcv = 3\<rparr> # week]\<rparr>"

definition resumed_done :: "nat store" where
  "resumed_done =
     \<lparr>log = [''MESZ5'' \<mapsto> midnight 2025 12 15 + hms 9 29 0, ''MESH6'' \<mapsto> midnight 2026 1 5],
      log_file = Some [''MESZ5'' \<mapsto> midnight 2025 12 15 + hms 9 29 0,
                       ''MESH6'' \<mapsto> midnight 2026 1 5],
      files = [''MESZ5_temp.csv'' \<mapsto>
                 \<lparr>date = midnight 2025 12 16 + hms 0 1 0, ohlcv = 3\<rparr> # week]\<rparr>"

text \<open>
  Two contract files of three and four rows; the last row of the first file and the
  first row of the second have the same date and the same columns.
\<close>

definition z_rows :: "nat bar list" where
  "z_rows =
     [\<lparr>date = midnight 2025 12 15 + hms 9 30 0, ohlcv = 1\<rparr>,
      \<lparr>date = midnight 2025 12 15 + hms 9 31 0, ohlcv = 2\<rparr>,
      \<lparr>date = midnight 2025 12 15 + hms 9 32 0, ohlcv = 3\<rparr>]"

definition h_rows :: "nat bar list" where
  "h_rows =
     [\<lparr>date = midnight 2025 12 15 + hms 9 32 0, ohlcv = 3\<rparr>,
      \<lparr>date = midnight 2025 12 15 + hms 9 33 0, ohlcv = 4\<rparr>,
      \<lparr>date = midnight 2025 12 15 + hms 9 34 0, ohlcv = 5\<rparr>,
      \<lparr>date = midnight 2025 12 15 + hms 9 35 0, ohlcv = 6\<rparr>]"

definition two_files :: "string \<rightharpoonup> nat bar list" where
  "two_files = [''MESZ5_temp.csv'' \<mapsto> z_rows, ''MESH6_temp.csv'' \<mapsto> h_rows]"

text \<open>The dates of the table the merger makes of them: 09:32 is there twice.\<close>

definition combined :: "int list" where
  "combined =
     [midnight 2025 12 15 + hms 9 30 0,
      midnight 2025 12 15 + hms 9 31 0,
      midnight 2025 12 15 + hms 9 32 0,
      midnight 2025 12 15 + hms 9 32 0,
      midnight 2025 12 15 + hms 9 33 0,
      midnight 2025 12 15 + hms 9 34 0,
      midnight 2025 12 15 + hms 9 35 0]"

text \<open>A store with rows of an earlier run in the contract's file and no log.\<close>

definition orphaned :: "nat store" where
  "orphaned =
     \<lparr>log = Map.empty, log_file = None,
      files = [''MESZ5_temp.csv'' \<mapsto> [\<lparr>date = midnight 2025 12 10, ohlcv = 8\<rparr>]]\<rparr>"

text \<open>An API that ignores \<^verbatim>\<open>endDateTime\<close>, and a bar of 20 December 2025.\<close>

definition ignores :: "nat bar list \<Rightarrow> nat api_call" where
  "ignores bs = (\<lambda>contract end_dt. Bars bs)"

definition late :: "nat bar list" where
  "late = [\<lparr>date = midnight 2025 12 20, ohlcv = 9\<rparr>]"

text \<open>An API whose bars have dates without a time zone.\<close>

definition naive :: "nat bar list \<Rightarrow> nat api_call" where
  "naive bs = (\<lambda>contract end_dt. Naive bs)"

text \<open>A December contract given by year and month, as the gateway may send it.\<close>

definition mesz6 :: Contract where
  "mesz6 = \<lparr>localSymbol = ''MESZ6'', lastTradeDateOrContractMonth = ''202612''\<rparr>"

section \<open>Properties\<close>

subsection \<open>The enumerator\<close>

lemmas calendar_defs =
  midnight_def ymd2ord_def days_before_year_def days_before_month_def days_in_month_def
  is_leap_def days_def hms_def

lemmas strptime_defs =
  parse_expiry_def strptime_Ymd_def match_Y_def match_m_def match_d_def two_digits_def
  one_digit_def digit_def

lemma parse_full_date: "parse_expiry ''20251219'' = Some (midnight 2025 12 19)"
  by (simp add: strptime_defs days_in_month_def is_leap_def)

lemma parse_year_month: "parse_expiry ''202406'' = Some (midnight 2024 6 1)"
  by (simp add: strptime_defs days_in_month_def is_leap_def)

lemma parse_garbage: "parse_expiry ''2024-06'' = None"
  by (simp add: strptime_defs)

text \<open>
  The loop keeps the contracts whose expiry parses and is not before the boundary, in
  their order; one that does not parse is passed over and the loop goes on.
\<close>

lemma valid_contracts_filter:
  "valid_contracts now contracts =
     filter (\<lambda>c. case parse_expiry (lastTradeDateOrContractMonth c) of
                   None \<Rightarrow> False
                 | Some expiry_date \<Rightarrow> two_years_ago now \<le> expiry_date) contracts"
  by (induction contracts) (auto split: option.splits)

text \<open>
  C7. The enumerator is to keep a contract whose expiry, read as a full date or as a
  year and month (first day of the month), is not before \<open>now - 730 days\<close>. For the
  year-month \<^verbatim>\<open>202411\<close> the first \<^verbatim>\<open>strptime\<close> does not raise: it reads month 1, day 1.
  The fallback of line 38 is never reached, the expiry becomes 1 January 2024, and on
  1 June 2026 the contract is dropped although 1 November 2024 is inside the window.
\<close>

theorem enumerator_drops_november_contract:
  "parse_expiry ''202411'' = Some (midnight 2024 1 1)
   \<and> two_years_ago (midnight 2026 6 1) \<le> midnight 2024 11 1
   \<and> valid_contracts (midnight 2026 6 1) [mesx4] = []"
  by (simp add: strptime_defs calendar_defs two_years_ago_def mesx4_def)

subsection \<open>The retry loop\<close>

lemma range_3: "[0..<3] = [0, 1, 2]"
  by (simp add: eval_nat_numeral)

lemma attempts_three:
  "attempts 3 [0..<3] c e st (a1 # a2 # a3 # api) =
     (if a1 c e \<noteq> Raises then Some (fetched_of (a1 c e), [(Request e, st)], a2 # a3 # api)
      else if a2 c e \<noteq> Raises then
        Some (fetched_of (a2 c e),
          [(Request e, st), (Sleep 1000, st), (Request e, st)], a3 # api)
      else
        Some (fetched_of (a3 c e),
          [(Request e, st), (Sleep 1000, st), (Request e, st), (Sleep 2000, st),
           (Request e, st)], api))"
  by (simp add: range_3 split: response.splits)

lemma attempts_suffix:
  "attempts m rs c e st api = Some (r, steps, api') \<Longrightarrow> \<exists>used. api = used @ api'"
proof (induction rs arbitrary: api steps)
  case Nil
  then show ?case by simp
next
  case (Cons retry rest)
  show ?case
  proof (cases api)
    case Nil
    with Cons.prems show ?thesis by simp
  next
    case (Cons call api0)
    show ?thesis
    proof (cases "call c e")
      case Raises
      show ?thesis
      proof (cases "retry < m - 1")
        case True
        with Cons.prems \<open>api = call # api0\<close> Raises
        obtain steps0 where "attempts m rest c e st api0 = Some (r, steps0, api')"
          by (auto split: option.splits)
        from Cons.IH [OF this] obtain used where "api0 = used @ api'" by blast
        with \<open>api = call # api0\<close> have "api = (call # used) @ api'" by simp
        then show ?thesis by blast
      next
        case False
        with Cons.prems \<open>api = call # api0\<close> Raises have "api = [call] @ api'" by simp
        then show ?thesis by blast
      qed
    next
      case (Bars bs)
      with Cons.prems \<open>api = call # api0\<close> have "api = [call] @ api'" by simp
      then show ?thesis by blast
    next
      case (Naive bs)
      with Cons.prems \<open>api = call # api0\<close> have "api = [call] @ api'" by simp
      then show ?thesis by blast
    qed
  qed
qed

lemma gave_up_three:
  assumes "attempts 3 [0..<3] c e st api = Some (GaveUp, steps, api')"
  shows "\<exists>r1 r2 r3. api = r1 # r2 # r3 # api'
           \<and> r1 c e = Raises \<and> r2 c e = Raises \<and> r3 c e = Raises"
  using assms unfolding range_3
  apply (cases api; simp split: response.splits)
  subgoal for a1 l1
    apply (cases l1; simp split: response.splits)
    subgoal for a2 l2
      by (cases l2; simp split: response.splits)
    done
  done

subsection \<open>Unfolding the loop\<close>

text \<open>The four ways one round of \<^verbatim>\<open>while True\<close> can produce a result.\<close>

lemma fetching_cases [consumes 1, case_names GaveUp Unassigned Naive Break Next]:
  assumes "fetching m c start e st api = Some (out, steps, st', api')"
  obtains
    "attempts m [0..<m] c e st api = Some (GaveUp, steps, api')" "out = FAILED" "st' = st"
  | "attempts m [0..<m] c e st api = Some (Unassigned, steps, api')" "out = DONE" "st' = st"
  | bars where
      "attempts m [0..<m] c e st api = Some (FetchedNaive bars, steps, api')"
      "out = (if bars = [] then DONE else RAISED)" "st' = st"
  | bars s1 s2 where
      "attempts m [0..<m] c e st api = Some (Fetched bars, s1, api')"
      "page c start st bars = (Break, s2, st')" "out = DONE" "steps = s1 @ s2"
  | bars s1 api1 t s2 st2 s3 where
      "attempts m [0..<m] c e st api = Some (Fetched bars, s1, api1)"
      "page c start st bars = (Next t, s2, st2)"
      "fetching m c start (Some t) st2 api1 = Some (out, s3, st', api')"
      "steps = s1 @ s2 @ s3"
  using assms
  by (subst (asm) fetching.simps)
     (auto split: option.splits fetched.splits verdict.splits prod.splits if_splits)

text \<open>Induction along the rounds of the loop.\<close>

lemma fetching_rounds [case_names round]:
  assumes "\<And>m c start e st api.
     (\<And>bars s1 api1 t s2 st2.
        attempts m [0..<m] c e st api = Some (Fetched bars, s1, api1) \<Longrightarrow>
        page c start st bars = (Next t, s2, st2) \<Longrightarrow> P m c start (Some t) st2 api1)
     \<Longrightarrow> P m c start e st api"
  shows "P m c start e st api"
proof (induction m c start e st api rule: fetching.induct)
  case (1 m c start e st api)
  show ?case
  proof (rule assms)
    fix bars s1 api1 t s2 st2
    assume att: "attempts m [0..<m] c e st api = Some (Fetched bars, s1, api1)"
      and pg: "page c start st bars = (Next t, s2, st2)"
    show "P m c start (Some t) st2 api1"
      by (rule "1" [OF att refl refl refl pg [symmetric] refl refl])
  qed
qed

lemma attempts_naive_source:
  "attempts m rs c e st api = Some (FetchedNaive bars, steps, api')
     \<Longrightarrow> \<exists>pre r. api = pre @ r # api' \<and> r c e = Naive bars"
proof (induction rs arbitrary: api steps)
  case Nil
  then show ?case by simp
next
  case (Cons retry rest)
  show ?case
  proof (cases api)
    case Nil
    with Cons.prems show ?thesis by simp
  next
    case (Cons call api0)
    show ?thesis
    proof (cases "call c e")
      case Raises
      with Cons.prems \<open>api = call # api0\<close>
      obtain steps0 where "attempts m rest c e st api0 = Some (FetchedNaive bars, steps0, api')"
        by (auto split: option.splits if_splits)
      from Cons.IH [OF this] obtain pre r where "api0 = pre @ r # api'" "r c e = Naive bars"
        by blast
      with \<open>api = call # api0\<close> have "api = (call # pre) @ r # api'" by simp
      with \<open>r c e = Naive bars\<close> show ?thesis by blast
    next
      case (Bars bs)
      with Cons.prems \<open>api = call # api0\<close> show ?thesis by simp
    next
      case (Naive bs)
      with Cons.prems \<open>api = call # api0\<close> have "api = [] @ call # api'" "call c e = Naive bars"
        by simp_all
      then show ?thesis by blast
    qed
  qed
qed

lemma failed_only_after_three:
  "fetching m c start e st api = Some (FAILED, steps, st', api') \<Longrightarrow> m = 3 \<Longrightarrow>
     \<exists>pre e' r1 r2 r3. api = pre @ r1 # r2 # r3 # api' \<and>
        r1 c e' = Raises \<and> r2 c e' = Raises \<and> r3 c e' = Raises"
proof (induction m c start e st api arbitrary: steps rule: fetching_rounds)
  case (round m c start e st api)
  from round.prems(1) show ?case
  proof (cases rule: fetching_cases)
    case GaveUp
    with \<open>m = 3\<close> gave_up_three [of c e st api steps api']
    obtain r1 r2 r3 where "api = [] @ r1 # r2 # r3 # api'"
      "r1 c e = Raises" "r2 c e = Raises" "r3 c e = Raises"
      by auto
    then show ?thesis by blast
  next
    case Unassigned
    then show ?thesis by simp
  next
    case (Naive bars)
    then show ?thesis by (simp split: if_splits)
  next
    case (Break bars s1 s2)
    then show ?thesis by simp
  next
    case (Next bars s1 api1 t s2 st2 s3)
    from round.IH [OF Next(1) Next(2) Next(3) \<open>m = 3\<close>]
    obtain pre e' r1 r2 r3 where *: "api1 = pre @ r1 # r2 # r3 # api'"
      "r1 c e' = Raises" "r2 c e' = Raises" "r3 c e' = Raises" by blast
    from attempts_suffix [OF Next(1)] obtain used where "api = used @ api1" by blast
    with * have "api = (used @ pre) @ r1 # r2 # r3 # api'" by simp
    with * show ?thesis by blast
  qed
qed

lemma raised_only_on_naive:
  "fetching m c start e st api = Some (RAISED, steps, st', api') \<Longrightarrow>
     \<exists>pre e' r bars. api = pre @ r # api' \<and> r c e' = Naive bars \<and> bars \<noteq> []"
proof (induction m c start e st api arbitrary: steps rule: fetching_rounds)
  case (round m c start e st api)
  from round.prems(1) show ?case
  proof (cases rule: fetching_cases)
    case GaveUp
    then show ?thesis by simp
  next
    case Unassigned
    then show ?thesis by simp
  next
    case (Naive bars)
    then have "bars \<noteq> []" by (simp split: if_splits)
    with attempts_naive_source [OF Naive(1)] show ?thesis by blast
  next
    case (Break bars s1 s2)
    then show ?thesis by simp
  next
    case (Next bars s1 api1 t s2 st2 s3)
    from round.IH [OF Next(1) Next(2) Next(3)]
    obtain pre e' r bs where *: "api1 = pre @ r # api'" "r c e' = Naive bs" "bs \<noteq> []" by blast
    from attempts_suffix [OF Next(1)] obtain used where "api = used @ api1" by blast
    with * have "api = (used @ pre) @ r # api'" by simp
    with * show ?thesis by blast
  qed
qed

lemmas run_defs =
  fetch_contract_data_def fetching.simps page_def min_date_def temp_file_def
  to_csv_append_def json_dump_def Let_def range_3

lemma mesz5_expiry: "parse_expiry (lastTradeDateOrContractMonth mesz5) = Some (midnight 2025 12 19)"
  by (simp add: mesz5_def parse_full_date)

lemma mesh6_expiry: "parse_expiry (lastTradeDateOrContractMonth mesh6) = Some (midnight 2026 3 20)"
  by (simp add: mesh6_def strptime_defs days_in_month_def is_leap_def)

lemma failed_run:
  "fetch_contract_data today mesz5 3 fresh [raises, raises, raises, answers []] =
     Some (FAILED,
       [(Request (Some (midnight 2025 12 19 + hms 23 59 59)), fresh), (Sleep 1000, fresh),
        (Request (Some (midnight 2025 12 19 + hms 23 59 59)), fresh), (Sleep 2000, fresh),
        (Request (Some (midnight 2025 12 19 + hms 23 59 59)), fresh)], fresh, [answers []])"
  by (simp add: run_defs mesz5_expiry fresh_def raises_def today_def calendar_defs)

lemma raised_run:
  "fetch_contract_data today mesz5 3 fresh [naive week, answers []] =
     Some (RAISED, [(Request (Some (midnight 2025 12 19 + hms 23 59 59)), fresh)], fresh,
       [answers []])"
  by (simp add: run_defs mesz5_expiry fresh_def naive_def week_def today_def calendar_defs)

lemma mesh6_done:
  "fetch_contract_data today mesh6 3 fresh [answers []] =
     Some (DONE, [(Request (Some (midnight 2026 3 20 + hms 23 59 59)), fresh)], fresh, [])"
  by (simp add: run_defs mesh6_expiry fresh_def answers_def today_def calendar_defs)

text \<open>
  C5, as the claim has it (three failed attempts are the only way a contract fails),
  fails: when the API answers the first request with bars whose dates have no time
  zone, line 126 raises. There was one request, no failed attempt and no sleep; the
  exception ends the contract through lines 164 to 166 and the loop goes on with the
  next contract.
\<close>

theorem failure_without_retry_counterexample:
  "map_option (\<lambda>(outcomes, steps, st, api). (outcomes, map fst steps))
     (fetch_all (\<lambda>i. today) 0 [mesz5, mesh6] fresh [naive week, answers []])
   = Some ([(''MESZ5'', RAISED), (''MESH6'', DONE)],
           [Request (Some (midnight 2025 12 19 + hms 23 59 59)),
            Request (Some (midnight 2026 3 20 + hms 23 59 59))])"
  by (simp add: raised_run mesh6_done) (simp add: mesz5_def mesh6_def)

text \<open>
  C5, amended. With the default \<^verbatim>\<open>max_retries = 3\<close> a page is requested at most three
  times: a failure of the first attempt is followed by a sleep of 1 s, a failure of the
  second by a sleep of 2 s, and a failure of the third ends the function (no further
  sleep). A contract ends as \<open>FAILED\<close> only when the last three answers of the API were
  exceptions. It is not the only way a contract fails: an exception raised while a
  page is processed (here the one of line 126, on bars whose dates have no time zone)
  is not retried and ends the contract as well. After either, and after any other
  outcome, the loop over the contracts goes on with the next contract.
\<close>

theorem retry_exhaustion_and_exceptions:
  "attempts 3 [0..<3] c e st (a1 # a2 # a3 # api) =
     (if a1 c e \<noteq> Raises then Some (fetched_of (a1 c e), [(Request e, st)], a2 # a3 # api)
      else if a2 c e \<noteq> Raises then
        Some (fetched_of (a2 c e),
          [(Request e, st), (Sleep 1000, st), (Request e, st)], a3 # api)
      else
        Some (fetched_of (a3 c e),
          [(Request e, st), (Sleep 1000, st), (Request e, st), (Sleep 2000, st),
           (Request e, st)], api))
   \<and> (fetch_contract_data (clock i) c 3 st api0 = Some (out, steps, st', api') \<longrightarrow>
        (out = FAILED \<longrightarrow>
           (\<exists>pre e' r1 r2 r3. api0 = pre @ r1 # r2 # r3 # api' \<and>
              r1 c e' = Raises \<and> r2 c e' = Raises \<and> r3 c e' = Raises))
        \<and> (out = RAISED \<longrightarrow>
           (\<exists>pre e' r bars. api0 = pre @ r # api' \<and> r c e' = Naive bars \<and> bars \<noteq> []))
        \<and> fetch_all clock i (c # rest) st api0 =
            (case fetch_all clock (Suc i) rest st' api' of
               None \<Rightarrow> None
             | Some (outcomes, steps', st'', api'') \<Rightarrow>
                 Some ((localSymbol c, out) # outcomes, steps @ steps', st'', api'')))"
proof (rule conjI)
  show "attempts 3 [0..<3] c e st (a1 # a2 # a3 # api) =
     (if a1 c e \<noteq> Raises then Some (fetched_of (a1 c e), [(Request e, st)], a2 # a3 # api)
      else if a2 c e \<noteq> Raises then
        Some (fetched_of (a2 c e),
          [(Request e, st), (Sleep 1000, st), (Request e, st)], a3 # api)
      else
        Some (fetched_of (a3 c e),
          [(Request e, st), (Sleep 1000, st), (Request e, st), (Sleep 2000, st),
           (Request e, st)], api))"
    by (rule attempts_three)
next
  show "fetch_contract_data (clock i) c 3 st api0 = Some (out, steps, st', api') \<longrightarrow>
        (out = FAILED \<longrightarrow>
           (\<exists>pre e' r1 r2 r3. api0 = pre @ r1 # r2 # r3 # api' \<and>
              r1 c e' = Raises \<and> r2 c e' = Raises \<and> r3 c e' = Raises))
        \<and> (out = RAISED \<longrightarrow>
           (\<exists>pre e' r bars. api0 = pre @ r # api' \<and> r c e' = Naive bars \<and> bars \<noteq> []))
        \<and> fetch_all clock i (c # rest) st api0 =
            (case fetch_all clock (Suc i) rest st' api' of
               None \<Rightarrow> None
             | Some (outcomes, steps', st'', api'') \<Rightarrow>
                 Some ((localSymbol c, out) # outcomes, steps @ steps', st'', api''))"
  proof (intro impI conjI)
    assume run: "fetch_contract_data (clock i) c 3 st api0 = Some (out, steps, st', api')"
    then show "fetch_all clock i (c # rest) st api0 =
            (case fetch_all clock (Suc i) rest st' api' of
               None \<Rightarrow> None
             | Some (outcomes, steps', st'', api'') \<Rightarrow>
                 Some ((localSymbol c, out) # outcomes, steps @ steps', st'', api''))"
      by simp
    {
      assume "out = FAILED"
      with run obtain start e0 where "fetching 3 c start e0 st api0 = Some (FAILED, steps, st', api')"
        by (auto simp: fetch_contract_data_def Let_def split: option.splits)
      from failed_only_after_three [OF this refl]
      show "\<exists>pre e' r1 r2 r3. api0 = pre @ r1 # r2 # r3 # api' \<and>
              r1 c e' = Raises \<and> r2 c e' = Raises \<and> r3 c e' = Raises" .
    }
    {
      assume "out = RAISED"
      with run obtain start e0 where "fetching 3 c start e0 st api0 = Some (RAISED, steps, st', api')"
        by (auto simp: fetch_contract_data_def Let_def split: option.splits)
      from raised_only_on_naive [OF this]
      show "\<exists>pre e' r bars. api0 = pre @ r # api' \<and> r c e' = Naive bars \<and> bars \<noteq> []" .
    }
  qed
qed

theorem retry_exhaustion_and_exceptions_witness:
  "attempts 3 [0..<3] mesz5 None fresh [raises, raises, answers [\<lparr>date = 5, ohlcv = 7\<rparr>]] =
     Some (Fetched [\<lparr>date = 5, ohlcv = 7\<rparr>],
       [(Request None, fresh), (Sleep 1000, fresh), (Request None, fresh), (Sleep 2000, fresh),
        (Request None, fresh)], [])
   \<and> map_option fst (fetch_contract_data today mesz5 3 fresh [raises, raises, raises, answers []])
       = Some FAILED
   \<and> (\<exists>pre e' r1 r2 r3. [raises, raises, raises, answers []] = pre @ r1 # r2 # r3 # [answers []] \<and>
            r1 mesz5 e' = Raises \<and> r2 mesz5 e' = Raises \<and> r3 mesz5 e' = Raises)
   \<and> map_option fst (fetch_all (\<lambda>i. today) 0 [mesz5, mesh6] fresh [raises, raises, raises, answers []])
       = Some [(''MESZ5'', FAILED), (''MESH6'', DONE)]
   \<and> map_option fst (fetch_contract_data today mesz5 3 fresh [naive week, answers []])
       = Some RAISED
   \<and> (\<exists>pre e' r bars. [naive week, answers []] = pre @ r # [answers []] \<and>
            r mesz5 e' = Naive bars \<and> bars \<noteq> [])
   \<and> map_option fst (fetch_all (\<lambda>i. today) 0 [mesz5, mesh6] fresh [naive week, answers []])
       = Some [(''MESZ5'', RAISED), (''MESH6'', DONE)]"
proof -
  note failed = retry_exhaustion_and_exceptions [where c = mesz5 and e = None and st = fresh
      and ?a1.0 = raises and ?a2.0 = raises and ?a3.0 = "answers [\<lparr>date = 5, ohlcv = 7\<rparr>]"
      and api = "[]" and clock = "\<lambda>i. today" and i = 0
      and ?api0.0 = "[raises, raises, raises, answers []]" and out = FAILED
      and st' = fresh and api' = "[answers []]" and rest = "[mesh6]"
      and steps = "[(Request (Some (midnight 2025 12 19 + hms 23 59 59)), fresh), (Sleep 1000, fresh),
        (Request (Some (midnight 2025 12 19 + hms 23 59 59)), fresh), (Sleep 2000, fresh),
        (Request (Some (midnight 2025 12 19 + hms 23 59 59)), fresh)]"]
  note raised = retry_exhaustion_and_exceptions [where c = mesz5 and e = None and st = fresh
      and ?a1.0 = raises and ?a2.0 = raises and ?a3.0 = raises
      and api = "[]" and clock = "\<lambda>i. today" and i = 0
      and ?api0.0 = "[naive week, answers []]" and out = RAISED
      and st' = fresh and api' = "[answers []]" and rest = "[mesh6]"
      and steps = "[(Request (Some (midnight 2025 12 19 + hms 23 59 59)), fresh)]"]
  have sym: "localSymbol mesz5 = ''MESZ5''" "localSymbol mesh6 = ''MESH6''"
    by (simp_all add: mesz5_def mesh6_def)
  have "attempts 3 [0..<3] mesz5 None fresh [raises, raises, answers [\<lparr>date = 5, ohlcv = 7\<rparr>]] =
     Some (Fetched [\<lparr>date = 5, ohlcv = 7\<rparr>],
       [(Request None, fresh), (Sleep 1000, fresh), (Request None, fresh), (Sleep 2000, fresh),
        (Request None, fresh)], [])"
    using failed [THEN conjunct1] by (simp add: raises_def answers_def)
  moreover from failed [THEN conjunct2] failed_run
  have "(\<exists>pre e' r1 r2 r3. [raises, raises, raises, answers []] = pre @ r1 # r2 # r3 # [answers []] \<and>
            r1 mesz5 e' = Raises \<and> r2 mesz5 e' = Raises \<and> r3 mesz5 e' = Raises)"
    and "map_option fst (fetch_all (\<lambda>i. today) 0 [mesz5, mesh6] fresh [raises, raises, raises, answers []])
       = Some [(''MESZ5'', FAILED), (''MESH6'', DONE)]"
    by (simp_all add: mesh6_done sym)
  moreover from raised [THEN conjunct2] raised_run
  have "(\<exists>pre e' r bars. [naive week, answers []] = pre @ r # [answers []] \<and>
            r mesz5 e' = Naive bars \<and> bars \<noteq> [])"
    and "map_option fst (fetch_all (\<lambda>i. today) 0 [mesz5, mesh6] fresh [naive week, answers []])
       = Some [(''MESZ5'', RAISED), (''MESH6'', DONE)]"
    by (simp_all add: mesh6_done sym)
  ultimately show ?thesis by (simp add: failed_run raised_run)
qed

subsection \<open>Two concrete runs\<close>

lemma first_run:
  "fetch_contract_data today mesz5 3 fresh [answers week, answers []] =
     Some (DONE,
       [(Request (Some (midnight 2025 12 19 + hms 23 59 59)), fresh),
        (Append ''MESZ5_temp.csv'' week, first_page),
        (Sleep 1100, first_page),
        (Persist ''MESZ5'' (midnight 2025 12 15 + hms 9 29 0), first_done),
        (Request (Some (midnight 2025 12 15 + hms 9 29 0)), first_done)],
       first_done, [])"
  by (simp add: run_defs mesz5_expiry answers_def week_def fresh_def today_def calendar_defs
        first_page_def first_done_def)
     (simp add: mesz5_def)

lemma resumed_run:
  "fetch_contract_data today mesz5 3 (load_log resumed) [answers week, answers []] =
     Some (DONE,
       [(Request (Some (midnight 2025 12 16)), load_log resumed),
        (Append ''MESZ5_temp.csv'' week, resumed_page),
        (Sleep 1100, resumed_page),
        (Persist ''MESZ5'' (midnight 2025 12 15 + hms 9 29 0), resumed_done),
        (Request (Some (midnight 2025 12 15 + hms 9 29 0)), resumed_done)],
       resumed_done, [])"
  by (simp add: run_defs mesz5_expiry answers_def week_def resumed_def load_log_def today_def
        calendar_defs resumed_page_def resumed_done_def)
     (auto simp: mesz5_def)


subsection \<open>One page\<close>

lemma min_date_least: "df \<noteq> [] \<Longrightarrow> b \<in> set df \<Longrightarrow> min_date df \<le> date b"
  by (simp add: min_date_def)

lemma min_date_in: "df \<noteq> [] \<Longrightarrow> min_date df \<in> date ` set df"
  unfolding min_date_def using Min_in [of "set (map date df)"] by simp

lemma page_nothing:
  "filter (\<lambda>b. start_date \<le> date b) bars = [] \<Longrightarrow> page c start_date st bars = (Break, [], st)"
  by (simp add: page_def)

lemma page_something:
  assumes "df = filter (\<lambda>b. start_date \<le> date b) bars" and "df \<noteq> []"
  shows "page c start_date st bars =
    (if min_date df \<le> start_date then Break else Next (min_date df - 60),
     [(Append (temp_file (localSymbol c)) df, to_csv_append (temp_file (localSymbol c)) df st),
      (Sleep 1100, to_csv_append (temp_file (localSymbol c)) df st),
      (Persist (localSymbol c) (min_date df - 60),
       json_dump ((to_csv_append (temp_file (localSymbol c)) df st)
          \<lparr>log := (log st)(localSymbol c \<mapsto> min_date df - 60)\<rparr>))],
     json_dump ((to_csv_append (temp_file (localSymbol c)) df st)
          \<lparr>log := (log st)(localSymbol c \<mapsto> min_date df - 60)\<rparr>))"
proof -
  from assms have "bars \<noteq> []" by auto
  with assms show ?thesis
    by (simp add: page_def Let_def to_csv_append_def)
qed

lemma page_cases [consumes 1, case_names Nothing Something]:
  assumes "page c start st bars = (v, steps, st')"
  obtains "v = Break" "steps = []" "st' = st"
  | df st1 t where "df = filter (\<lambda>b. start \<le> date b) bars" "df \<noteq> []"
      "t = min_date df - 60"
      "st1 = to_csv_append (temp_file (localSymbol c)) df st"
      "st' = json_dump (st1\<lparr>log := (log st)(localSymbol c \<mapsto> t)\<rparr>)"
      "steps = [(Append (temp_file (localSymbol c)) df, st1), (Sleep 1100, st1),
                (Persist (localSymbol c) t, st')]"
      "v = (if min_date df \<le> start then Break else Next t)"
proof (cases "filter (\<lambda>b. start \<le> date b) bars = []")
  case True
  with assms page_nothing [OF True, of c st] that(1) show ?thesis by simp
next
  case False
  from page_something [OF refl False, of c st] assms
  have "st' = json_dump ((to_csv_append (temp_file (localSymbol c))
            (filter (\<lambda>b. start \<le> date b) bars) st)
          \<lparr>log := (log st)(localSymbol c \<mapsto> min_date (filter (\<lambda>b. start \<le> date b) bars) - 60)\<rparr>)"
    and "steps = [(Append (temp_file (localSymbol c)) (filter (\<lambda>b. start \<le> date b) bars),
                   to_csv_append (temp_file (localSymbol c)) (filter (\<lambda>b. start \<le> date b) bars) st),
                  (Sleep 1100,
                   to_csv_append (temp_file (localSymbol c)) (filter (\<lambda>b. start \<le> date b) bars) st),
                  (Persist (localSymbol c) (min_date (filter (\<lambda>b. start \<le> date b) bars) - 60), st')]"
    and "v = (if min_date (filter (\<lambda>b. start \<le> date b) bars) \<le> start then Break
              else Next (min_date (filter (\<lambda>b. start \<le> date b) bars) - 60))"
    by simp_all
  from that(2) [OF refl False refl refl this] show ?thesis .
qed


lemma week_survives: "week = filter (\<lambda>b. two_years_ago today \<le> date b) week"
  by (simp add: week_def two_years_ago_def today_def calendar_defs)

lemma week_min: "min_date week - 60 = midnight 2025 12 15 + hms 9 29 0"
  by (simp add: week_def min_date_def calendar_defs)

lemma week_page:
  "page mesz5 (two_years_ago today) fresh week =
    (fst (page mesz5 (two_years_ago today) fresh week),
     fst (snd (page mesz5 (two_years_ago today) fresh week)),
     snd (snd (page mesz5 (two_years_ago today) fresh week)))"
  by simp

text \<open>
  C8, as the claim has it (checkpoint written before the rate-limit sleep), fails: in
  the first run of \<open>mesz5\<close> the sleep of 1.1 s comes before the only write of the log.
\<close>

theorem checkpoint_before_sleep_counterexample:
  "map fst (trace_of (fetch_contract_data today mesz5 3 fresh [answers week, answers []])) =
     [Request (Some (midnight 2025 12 19 + hms 23 59 59)),
      Append ''MESZ5_temp.csv'' week,
      Sleep 1100,
      Persist ''MESZ5'' (midnight 2025 12 15 + hms 9 29 0),
      Request (Some (midnight 2025 12 15 + hms 9 29 0))]
   \<and> takeWhile (\<lambda>e. \<not> is_persist e)
        (map fst (trace_of (fetch_contract_data today mesz5 3 fresh [answers week, answers []]))) =
     [Request (Some (midnight 2025 12 19 + hms 23 59 59)),
      Append ''MESZ5_temp.csv'' week,
      Sleep 1100]"
  by (simp add: first_run trace_of_def)

text \<open>
  C8, amended. The steps of a page with surviving bars are, in this order: the rows are
  appended to the contract's file, the fetcher sleeps 1.1 s, the cursor is written to
  the log.
\<close>

theorem sleep_between_append_and_persist:
  assumes "df = filter (\<lambda>b. start_date \<le> date b) bars" and "df \<noteq> []"
    and "page c start_date st bars = (v, steps, st')"
  shows "map fst steps =
    [Append (temp_file (localSymbol c)) df, Sleep 1100, Persist (localSymbol c) (min_date df - 60)]"
  using page_something [OF assms(1,2), of c st] assms(3) by auto

theorem sleep_between_append_and_persist_witness:
  "map fst (fst (snd (page mesz5 (two_years_ago today) fresh week))) =
    [Append ''MESZ5_temp.csv'' week, Sleep 1100, Persist ''MESZ5'' (midnight 2025 12 15 + hms 9 29 0)]"
proof -
  have ne: "week \<noteq> []" by (simp add: week_def)
  from sleep_between_append_and_persist [OF week_survives ne week_page] week_min show ?thesis
    by (simp add: mesz5_def temp_file_def)
qed

subsection \<open>The starting cursor\<close>

lemma attempts_first:
  "attempts m (r # rs) c e st (a # api) = Some (res, steps, api')
     \<Longrightarrow> steps \<noteq> [] \<and> hd steps = (Request e, st)"
  by (auto split: response.splits if_splits option.splits)

lemma fetching_first:
  assumes "fetching (Suc n) c start e st (a # api) = Some (out, steps, st', api')"
  shows "steps \<noteq> [] \<and> hd steps = (Request e, st)"
proof -
  have r: "[0..<Suc n] = 0 # [Suc 0..<Suc n]" by (rule upt_conv_Cons) simp
  from assms show ?thesis
  proof (cases rule: fetching_cases)
    case GaveUp
    from attempts_first [OF GaveUp(1) [unfolded r]] show ?thesis .
  next
    case Unassigned
    from attempts_first [OF Unassigned(1) [unfolded r]] show ?thesis .
  next
    case (Naive bars)
    from attempts_first [OF Naive(1) [unfolded r]] show ?thesis .
  next
    case (Break bars s1 s2)
    from attempts_first [OF Break(1) [unfolded r]] Break(4) show ?thesis by simp
  next
    case (Next bars s1 api1 t s2 st2 s3)
    from attempts_first [OF Next(1) [unfolded r]] Next(4) show ?thesis by simp
  qed
qed

text \<open>
  The first request of \<^verbatim>\<open>fetch_contract_data\<close> asks for the stored cursor when the log
  has one; without one it asks for 23:59:59 of the date read from the expiry string when
  that date is before the clock reading, and for "now" (the empty string) otherwise.
\<close>

lemma first_request_cursor:
  assumes "parse_expiry (lastTradeDateOrContractMonth c) = Some expiry_date"
    and "fetch_contract_data now c (Suc n) st (a # api) = Some (out, steps, st', api')"
  shows "steps \<noteq> [] \<and>
     fst (hd steps) =
       Request (case log st (localSymbol c) of
                  Some t \<Rightarrow> Some t
                | None \<Rightarrow> if expiry_date < now then Some (expiry_date + hms 23 59 59) else None)"
  using assms
  by (auto simp: fetch_contract_data_def Let_def dest!: fetching_first split: option.splits)

lemma mesz6_expiry: "parse_expiry (lastTradeDateOrContractMonth mesz6) = Some (midnight 2026 1 2)"
  by (simp add: mesz6_def strptime_defs days_in_month_def is_leap_def)

text \<open>
  C6. Without a checkpoint and with an expiry that is not in the past the cursor is to
  start unset. For the December contract \<^verbatim>\<open>202612\<close>, on 3 November 2026 and with an empty
  log, it does not: \<^verbatim>\<open>strptime\<close> reads the string as 2 January 2026 (the defect of C7),
  that date is in the past, and the first request asks for 23:59:59 of 2 January 2026.
  The enumerator keeps the contract, so the fetcher does receive it.
\<close>

theorem december_contract_starts_in_january:
  "parse_expiry (lastTradeDateOrContractMonth mesz6) = Some (midnight 2026 1 2)
   \<and> today < midnight 2026 12 1
   \<and> valid_contracts today [mesz6] = [mesz6]
   \<and> log fresh (localSymbol mesz6) = None
   \<and> map fst (trace_of (fetch_contract_data today mesz6 3 fresh [answers []]))
       = [Request (Some (midnight 2026 1 2 + hms 23 59 59))]"
proof -
  have "today < midnight 2026 12 1" by (simp add: today_def calendar_defs)
  moreover have "valid_contracts today [mesz6] = [mesz6]"
    by (simp add: mesz6_expiry two_years_ago_def today_def calendar_defs)
  moreover have "log fresh (localSymbol mesz6) = None" by (simp add: fresh_def)
  moreover have "map fst (trace_of (fetch_contract_data today mesz6 3 fresh [answers []]))
       = [Request (Some (midnight 2026 1 2 + hms 23 59 59))]"
    by (simp add: trace_of_def run_defs mesz6_expiry fresh_def answers_def today_def
        calendar_defs)
  ultimately show ?thesis using mesz6_expiry by simp
qed

subsection \<open>The other contracts' cursors\<close>

lemma attempts_stores:
  "attempts m rs c e st api = Some (r, steps, api') \<Longrightarrow> (e', s) \<in> set steps \<Longrightarrow> s = st"
proof (induction rs arbitrary: api steps)
  case Nil
  then show ?case by simp
next
  case (Cons retry rest)
  show ?case
  proof (cases api)
    case Nil
    with Cons.prems show ?thesis by simp
  next
    case (Cons call api0)
    with Cons.prems Cons.IH [of api0] show ?thesis
      by (auto split: response.splits if_splits option.splits)
  qed
qed

lemma page_frame:
  assumes "synced st" and "page c start st bars = (v, steps, st')" and "other \<noteq> localSymbol c"
  shows "(\<forall>(e, s) \<in> set steps. disk s other = disk st other) \<and> disk st' other = disk st other \<and> synced st'"
  using assms(2)
proof (cases rule: page_cases)
  case Nothing
  with assms show ?thesis by simp
next
  case (Something df st1 t)
  have 1: "disk st1 = disk st" using Something(4) by (simp add: disk_def to_csv_append_def)
  have 2: "disk st' = (log st)(localSymbol c \<mapsto> t)"
    using Something(5) by (simp add: disk_def json_dump_def)
  have 3: "log st' = (log st)(localSymbol c \<mapsto> t)"
    using Something(5) by (simp add: json_dump_def)
  from assms(1) have "log st = disk st" by (simp add: synced_def)
  with 1 2 3 assms(3) Something(6) show ?thesis by (simp add: synced_def)
qed

lemma fetching_frame:
  "synced st \<Longrightarrow> fetching m c start e st api = Some (out, steps, st', api') \<Longrightarrow>
   other \<noteq> localSymbol c \<Longrightarrow>
   (\<forall>(ev, s) \<in> set steps. disk s other = disk st other) \<and> disk st' other = disk st other \<and> synced st'"
proof (induction m c start e st api arbitrary: out steps st' api' rule: fetching_rounds)
  case (round m c start e st api)
  from round.prems(2) show ?case
  proof (cases rule: fetching_cases)
    case GaveUp
    with round.prems(1) attempts_stores [OF GaveUp(1)] show ?thesis by auto
  next
    case Unassigned
    with round.prems(1) attempts_stores [OF Unassigned(1)] show ?thesis by auto
  next
    case (Naive bars)
    with round.prems(1) attempts_stores [OF Naive(1)] show ?thesis by auto
  next
    case (Break bars s1 s2)
    from page_frame [OF round.prems(1) Break(2) round.prems(3)] attempts_stores [OF Break(1)] Break(4)
    show ?thesis by auto
  next
    case (Next bars s1 api1 t s2 st2 s3)
    note pf = page_frame [OF round.prems(1) Next(2) round.prems(3)]
    then have "synced st2" by simp
    from round.IH [OF Next(1) Next(2) this Next(3) round.prems(3)] pf
      attempts_stores [OF Next(1)] Next(4)
    show ?thesis by auto
  qed
qed

lemma synced_load_log: "synced (load_log st)"
  by (simp add: synced_def load_log_def disk_def)

text \<open>
  C10. The log is loaded once, so memory and file agree when the fetching starts. From
  such a store, fetching one contract never changes the cursor stored in the file for
  another contract, at no step of the run, and memory and file agree again at the end.
\<close>

theorem other_cursors_kept:
  assumes "synced st"
    and "fetch_contract_data now c m st api = Some (out, steps, st', api')"
    and "other \<noteq> localSymbol c"
  shows "(\<forall>(ev, s) \<in> set steps. disk s other = disk st other) \<and> disk st' other = disk st other
     \<and> synced st'"
proof (cases "parse_expiry (lastTradeDateOrContractMonth c)")
  case None
  with assms show ?thesis by (simp add: fetch_contract_data_def)
next
  case (Some expiry_date)
  with assms(2) obtain start e where "fetching m c start e st api = Some (out, steps, st', api')"
    by (auto simp: fetch_contract_data_def Let_def)
  from fetching_frame [OF assms(1) this assms(3)] show ?thesis .
qed

theorem other_cursors_kept_witness:
  "disk (load_log resumed) ''MESH6'' = Some (midnight 2026 1 5)
   \<and> disk resumed_page ''MESH6'' = disk (load_log resumed) ''MESH6''
   \<and> disk resumed_done ''MESH6'' = disk (load_log resumed) ''MESH6''
   \<and> disk resumed_done ''MESZ5'' = Some (midnight 2025 12 15 + hms 9 29 0)
   \<and> synced resumed_done"
proof -
  have ne: "''MESH6'' \<noteq> localSymbol mesz5" by (simp add: mesz5_def)
  have "disk (load_log resumed) ''MESH6'' = Some (midnight 2026 1 5)"
    by (simp add: disk_def load_log_def resumed_def)
  moreover have "disk resumed_done ''MESZ5'' = Some (midnight 2025 12 15 + hms 9 29 0)"
    by (simp add: disk_def resumed_done_def)
  moreover note other_cursors_kept [OF synced_load_log resumed_run ne]
  ultimately show ?thesis by simp
qed

subsection \<open>The merger\<close>

lemma set_drop_duplicates: "set (drop_duplicates xs) = set xs"
  by (simp add: drop_duplicates_def)

lemma distinct_drop_duplicates: "distinct (drop_duplicates xs)"
  by (simp add: drop_duplicates_def)

lemma drop_duplicates_distinct: "distinct xs \<Longrightarrow> drop_duplicates xs = xs"
  by (simp add: drop_duplicates_def distinct_remdups_id)

lemma sort_values_props:
  "sorted (map date (sort_values rows))" "set (sort_values rows) = set rows"
  "distinct (sort_values rows) = distinct rows" "length (sort_values rows) = length rows"
  by (simp_all add: sort_values_def)

lemma tag_inject: "tag s a = tag s' b \<longleftrightarrow> s = s' \<and> a = b"
  by (cases a; cases b) (auto simp: tag_def)

lemma distinct_map_tag: "distinct df \<Longrightarrow> distinct (map (tag s) df)"
  by (simp add: distinct_map inj_on_def tag_inject)

lemma merger_table:
  assumes "merger now cs fs = Some (n, out)"
  shows "n = now \<and> distinct out \<and> sorted (map date out)
     \<and> set out = \<Union> (set ` set (all_data cs fs))"
  using assms
  by (auto simp: merger_def Let_def sort_values_props set_drop_duplicates
        distinct_drop_duplicates split: if_splits)

lemma two_files_tables:
  "all_data [mesz5, mesh6] two_files = [map (tag ''MESZ5'') z_rows, map (tag ''MESH6'') h_rows]"
  by (simp add: mesz5_def mesh6_def temp_file_def two_files_def z_rows_def h_rows_def)

text \<open>
  C1, as the claim has it (six rows), fails: the rows of the two files carry different
  contract tags, so the two rows of 09:32 are not equal and both stay. The table has
  seven rows.
\<close>

theorem six_rows_counterexample:
  "map_option (map date \<circ> snd) (merger today [mesz5, mesh6] two_files) = Some combined
   \<and> map_option (length \<circ> snd) (merger today [mesz5, mesh6] two_files) = Some 7"
  by (simp only: merger_def two_files_tables Let_def)
     (simp add: z_rows_def h_rows_def tag_def drop_duplicates_def sort_values_def combined_def
        calendar_defs)

text \<open>
  C1, amended. The table is the concatenation of the tagged files without repeated
  rows (rows equal in every column, the contract tag included) and sorted by date. Two
  files of different contracts with three and four rows, none repeated inside a file,
  give seven rows, whatever dates the files share.
\<close>

theorem two_files_seven_rows:
  "(merger now cs fs = Some (n, out) \<longrightarrow>
      n = now \<and> distinct out \<and> sorted (map date out)
      \<and> set out = \<Union> (set ` set (all_data cs fs)))
   \<and> (localSymbol c1 \<noteq> localSymbol c2
      \<and> fs (temp_file (localSymbol c1)) = Some df1 \<and> fs (temp_file (localSymbol c2)) = Some df2
      \<and> length df1 = 3 \<and> length df2 = 4 \<and> distinct df1 \<and> distinct df2 \<longrightarrow>
      (\<exists>rows. merger now [c1, c2] fs = Some (now, rows) \<and> length rows = 7
         \<and> sorted (map date rows)
         \<and> set rows = tag (localSymbol c1) ` set df1 \<union> tag (localSymbol c2) ` set df2))"
proof (rule conjI; rule impI)
  assume "merger now cs fs = Some (n, out)"
  from merger_table [OF this]
  show "n = now \<and> distinct out \<and> sorted (map date out)
      \<and> set out = \<Union> (set ` set (all_data cs fs))" .
next
  assume h: "localSymbol c1 \<noteq> localSymbol c2
      \<and> fs (temp_file (localSymbol c1)) = Some df1 \<and> fs (temp_file (localSymbol c2)) = Some df2
      \<and> length df1 = 3 \<and> length df2 = 4 \<and> distinct df1 \<and> distinct df2"
  let ?t1 = "map (tag (localSymbol c1)) df1" and ?t2 = "map (tag (localSymbol c2)) df2"
  from h have ne: "df1 \<noteq> []" "df2 \<noteq> []" by auto
  with h have tables: "all_data [c1, c2] fs = [?t1, ?t2]" by simp
  from h have "distinct ?t1" "distinct ?t2" by (simp_all add: distinct_map_tag)
  moreover from h have "set ?t1 \<inter> set ?t2 = {}" by (auto simp: tag_inject)
  ultimately have d: "distinct (?t1 @ ?t2)" by simp
  have m: "merger now [c1, c2] fs = Some (now, sort_values (?t1 @ ?t2))"
    unfolding merger_def tables Let_def using drop_duplicates_distinct [OF d] by simp
  moreover from h have "length (sort_values (?t1 @ ?t2)) = 7" by (simp add: sort_values_props)
  moreover have "set (sort_values (?t1 @ ?t2))
      = tag (localSymbol c1) ` set df1 \<union> tag (localSymbol c2) ` set df2"
    by (simp add: sort_values_props)
  ultimately show "\<exists>rows. merger now [c1, c2] fs = Some (now, rows) \<and> length rows = 7
         \<and> sorted (map date rows)
         \<and> set rows = tag (localSymbol c1) ` set df1 \<union> tag (localSymbol c2) ` set df2"
    using sort_values_props(1) by blast
qed

theorem two_files_seven_rows_witness:
  "\<exists>rows. merger today [mesz5, mesh6] two_files = Some (today, rows) \<and> length rows = 7
      \<and> sorted (map date rows)
      \<and> set rows = tag ''MESZ5'' ` set z_rows \<union> tag ''MESH6'' ` set h_rows"
proof -
  have "localSymbol mesz5 \<noteq> localSymbol mesh6
      \<and> two_files (temp_file (localSymbol mesz5)) = Some z_rows
      \<and> two_files (temp_file (localSymbol mesh6)) = Some h_rows
      \<and> length z_rows = 3 \<and> length h_rows = 4 \<and> distinct z_rows \<and> distinct h_rows"
    by (simp add: mesz5_def mesh6_def temp_file_def two_files_def z_rows_def h_rows_def
        calendar_defs)
  with two_files_seven_rows [of today "[]" two_files today "[]" mesz5 mesh6 z_rows h_rows]
  show ?thesis by (simp add: mesz5_def mesh6_def)
qed

subsection \<open>The requests of a resumed contract\<close>

lemma attempts_events:
  "attempts m rs c e st api = Some (r, steps, api') \<Longrightarrow> (ev, s) \<in> set steps
     \<Longrightarrow> ev = Request e \<or> (\<exists>k. ev = Sleep (1000 * 2 ^ k))"
proof (induction rs arbitrary: api steps)
  case Nil
  then show ?case by simp
next
  case (Cons retry rest)
  show ?case
  proof (cases api)
    case Nil
    with Cons.prems show ?thesis by simp
  next
    case (Cons call api0)
    with Cons.prems Cons.IH [of api0] show ?thesis
      by (auto split: response.splits if_splits option.splits)
  qed
qed

lemma attempts_source:
  "attempts m rs c e st api = Some (Fetched bars, steps, api')
     \<Longrightarrow> \<exists>call \<in> set api. call c e = Bars bars"
proof (induction rs arbitrary: api steps)
  case Nil
  then show ?case by simp
next
  case (Cons retry rest)
  show ?case
  proof (cases api)
    case Nil
    with Cons.prems show ?thesis by simp
  next
    case (Cons call api0)
    with Cons.prems Cons.IH [of api0] show ?thesis
      by (auto split: response.splits if_splits option.splits)
  qed
qed

lemma attempts_no_steps:
  "attempts m rs c e st api = Some (r, [], api') \<Longrightarrow> r = Unassigned"
  by (cases rs; cases api) (auto split: response.splits if_splits option.splits)

lemma attempts_head:
  "attempts m rs c e st api = Some (r, steps, api') \<Longrightarrow> steps \<noteq> []
     \<Longrightarrow> hd steps = (Request e, st)"
  by (cases rs; cases api) (auto split: response.splits if_splits option.splits)

lemma follows_skip:
  "\<forall>ev \<in> set es. ev = Request (Some t) \<or> (\<exists>k. ev = Sleep (1000 * 2 ^ k))
     \<Longrightarrow> follows t (es @ es') = follows t es'"
  by (induction es) auto

lemma follows_requests:
  "follows t es \<Longrightarrow> e \<in> set (requests es) \<Longrightarrow> \<exists>t'. e = Some t' \<and> t' \<le> t"
  by (induction t es rule: follows.induct) force+

lemma honoured_bars:
  assumes "\<forall>call \<in> set api. honours call"
    and "attempts m rs c (Some t) st api = Some (Fetched bars, steps, api')"
    and "b \<in> set bars"
  shows "date b \<le> t"
proof -
  from attempts_source [OF assms(2)] obtain call where "call \<in> set api" "call c (Some t) = Bars bars"
    by blast
  with assms(1) have "list_all (\<lambda>b. date b \<le> t) bars" by (auto simp: honours_def)
  with assms(3) show ?thesis by (simp add: list_all_iff)
qed

lemma follows_fetching:
  "fetching m c start e st api = Some (out, steps, st', api') \<Longrightarrow> e = Some t \<Longrightarrow>
   \<forall>call \<in> set api. honours call \<Longrightarrow> follows t (map fst steps)"
proof (induction m c start e st api arbitrary: t out steps st' api' rule: fetching_rounds)
  case (round m c start e st api)
  have skip: "follows t (map fst s1 @ es) = follows t es"
    if "attempts m [0..<m] c e st api = Some (r, s1, api1)" for r s1 api1 es
    using attempts_events [OF that] \<open>e = Some t\<close> by (intro follows_skip) fastforce
  from round.prems(1) show ?case
  proof (cases rule: fetching_cases)
    case GaveUp
    from skip [OF GaveUp(1), of "[]"] show ?thesis by simp
  next
    case Unassigned
    from skip [OF Unassigned(1), of "[]"] show ?thesis by simp
  next
    case (Naive bars)
    from skip [OF Naive(1), of "[]"] show ?thesis by simp
  next
    case (Break bars s1 s2)
    from Break(2) have "follows t (map fst s2)"
    proof (cases rule: page_cases)
      case Nothing
      then show ?thesis by simp
    next
      case (Something df st1 t')
      from Something(2) obtain b where b: "b \<in> set df" by (cases df) auto
      with Something(1) have "b \<in> set bars" by simp
      from honoured_bars [OF round.prems(3) Break(1) [unfolded \<open>e = Some t\<close>] this]
        min_date_least [OF Something(2) b] Something(3)
      have "t' + 60 \<le> t" by simp
      with Something(6) show ?thesis by simp
    qed
    with skip [OF Break(1), of "map fst s2"] Break(4) show ?thesis by simp
  next
    case (Next bars s1 api1 t' s2 st2 s3)
    from attempts_suffix [OF Next(1)] round.prems(3) have honest: "\<forall>call \<in> set api1. honours call"
      by auto
    from round.IH [OF Next(1) Next(2) Next(3) refl honest] have rest: "follows t' (map fst s3)" .
    from Next(2) have "follows t (map fst s2 @ map fst s3)"
    proof (cases rule: page_cases)
      case Nothing
      then show ?thesis by simp
    next
      case (Something df st1 t'')
      from Something(7) have "t'' = t'" by (simp split: if_splits)
      from Something(2) obtain b where b: "b \<in> set df" by (cases df) auto
      with Something(1) have "b \<in> set bars" by simp
      from honoured_bars [OF round.prems(3) Next(1) [unfolded \<open>e = Some t\<close>] this]
        min_date_least [OF Something(2) b] Something(3) \<open>t'' = t'\<close>
      have "t' + 60 \<le> t" by simp
      with Something(6) \<open>t'' = t'\<close> rest show ?thesis by simp
    qed
    with skip [OF Next(1), of "map fst s2 @ map fst s3"] Next(4) show ?thesis by simp
  qed
qed

lemma fetching_head:
  assumes "fetching m c start e st api = Some (out, steps, st', api')"
  shows "steps = [] \<or> fst (hd steps) = Request e"
  using assms
proof (cases rule: fetching_cases)
  case GaveUp
  with attempts_head [OF GaveUp(1)] show ?thesis by (cases steps) auto
next
  case Unassigned
  with attempts_head [OF Unassigned(1)] show ?thesis by (cases steps) auto
next
  case (Naive bars)
  with attempts_head [OF Naive(1)] show ?thesis by (cases steps) auto
next
  case (Break bars s1 s2)
  from attempts_no_steps [of m "[0..<m]" c e st api "Fetched bars" api'] Break(1)
  have "s1 \<noteq> []" by auto
  with attempts_head [OF Break(1)] Break(4) show ?thesis by simp
next
  case (Next bars s1 api1 t s2 st2 s3)
  from attempts_no_steps [of m "[0..<m]" c e st api "Fetched bars" api1] Next(1)
  have "s1 \<noteq> []" by auto
  with attempts_head [OF Next(1)] Next(4) show ?thesis by simp
qed

text \<open>
  C4, amended. When the contract has a stored cursor and no answer of the API holds a
  bar after the requested end time, the trace follows the cursor: the first request
  and every retry of it ask for exactly the stored cursor, each page moves the cursor
  back by at least one minute, and the requests after it ask for the new cursor. So no
  request asks for an end time after the stored cursor.
\<close>

theorem requests_never_later:
  assumes "log st (localSymbol c) = Some t0"
    and "\<forall>call \<in> set api. honours call"
    and "fetch_contract_data now c m st api = Some (out, steps, st', api')"
  shows "follows t0 (map fst steps)
     \<and> (\<forall>e \<in> set (requests (map fst steps)). \<exists>t. e = Some t \<and> t \<le> t0)
     \<and> (steps = [] \<or> fst (hd steps) = Request (Some t0))"
proof (cases "parse_expiry (lastTradeDateOrContractMonth c)")
  case None
  with assms(3) show ?thesis by (simp add: fetch_contract_data_def)
next
  case (Some expiry_date)
  with assms(1,3) have run: "fetching m c (now - days 730) (Some t0) st api = Some (out, steps, st', api')"
    by (simp add: fetch_contract_data_def Let_def)
  from follows_fetching [OF run refl assms(2)] have f: "follows t0 (map fst steps)" .
  with follows_requests [OF f] fetching_head [OF run] show ?thesis by blast
qed

lemma honours_answers: "honours (answers bs)"
  by (auto simp: honours_def answers_def list_all_iff)

lemma honours_raises: "honours raises"
  by (simp add: honours_def raises_def)

lemma retried_run:
  "fetch_contract_data today mesz5 3 (load_log resumed) [raises, answers week, answers []] =
     Some (DONE,
       [(Request (Some (midnight 2025 12 16)), load_log resumed),
        (Sleep 1000, load_log resumed),
        (Request (Some (midnight 2025 12 16)), load_log resumed),
        (Append ''MESZ5_temp.csv'' week, resumed_page),
        (Sleep 1100, resumed_page),
        (Persist ''MESZ5'' (midnight 2025 12 15 + hms 9 29 0), resumed_done),
        (Request (Some (midnight 2025 12 15 + hms 9 29 0)), resumed_done)],
       resumed_done, [])"
  by (simp add: run_defs mesz5_expiry answers_def raises_def week_def resumed_def load_log_def
        today_def calendar_defs resumed_page_def resumed_done_def)
     (auto simp: mesz5_def)

text \<open>
  C4, as the claim has it, fails twice. A retry repeats the end time of the failed
  attempt, so the second request is not strictly earlier than the first. And nothing in
  the fetcher compares the bars with the end time it asked for: when the API answers
  with a bar of 20 December to a request ending on 16 December, the next request ends
  on 19 December, after the stored cursor.
\<close>

theorem later_request_counterexample:
  "requests (map fst (trace_of
      (fetch_contract_data today mesz5 3 (load_log resumed) [raises, answers week, answers []])))
     = [Some (midnight 2025 12 16), Some (midnight 2025 12 16),
        Some (midnight 2025 12 15 + hms 9 29 0)]
   \<and> requests (map fst (trace_of
      (fetch_contract_data today mesz5 3 (load_log resumed) [ignores late, answers []])))
     = [Some (midnight 2025 12 16), Some (midnight 2025 12 19 + hms 23 59 0)]
   \<and> midnight 2025 12 16 < midnight 2025 12 19 + hms 23 59 0"
proof -
  have "requests (map fst (trace_of
      (fetch_contract_data today mesz5 3 (load_log resumed) [ignores late, answers []])))
     = [Some (midnight 2025 12 16), Some (midnight 2025 12 19 + hms 23 59 0)]"
    by (simp add: trace_of_def run_defs mesz5_expiry answers_def ignores_def late_def
        resumed_def load_log_def today_def calendar_defs)
       (simp add: mesz5_def)
  moreover have "midnight 2025 12 16 < midnight 2025 12 19 + hms 23 59 0"
    by (simp add: calendar_defs)
  ultimately show ?thesis by (simp add: retried_run trace_of_def)
qed

theorem requests_never_later_witness:
  "follows (midnight 2025 12 16) (map fst (trace_of
      (fetch_contract_data today mesz5 3 (load_log resumed) [raises, answers week, answers []])))
   \<and> fst (hd (trace_of
      (fetch_contract_data today mesz5 3 (load_log resumed) [raises, answers week, answers []])))
     = Request (Some (midnight 2025 12 16))"
proof -
  have l: "log (load_log resumed) (localSymbol mesz5) = Some (midnight 2025 12 16)"
    by (simp add: resumed_def load_log_def mesz5_def)
  have h: "\<forall>call \<in> set [raises, answers week, answers []]. honours call"
    by (simp add: honours_answers honours_raises)
  from requests_never_later [OF l h retried_run] show ?thesis
    by (simp add: retried_run trace_of_def)
qed

subsection \<open>Every page of a run\<close>

lemma requests_append: "requests (xs @ ys) = requests xs @ requests ys"
  by (induction xs rule: requests.induct) auto

lemma attempts_drop:
  "attempts m rs c e st api = Some (r, s1, api1)
     \<Longrightarrow> length (requests (map fst s1)) \<le> length api
       \<and> api1 = drop (length (requests (map fst s1))) api"
proof (induction rs arbitrary: api s1)
  case Nil
  then show ?case by simp
next
  case (Cons retry rest)
  show ?case
  proof (cases api)
    case Nil
    with Cons.prems show ?thesis by simp
  next
    case (Cons call api0)
    with Cons.prems Cons.IH [of api0] show ?thesis
      by (auto split: response.splits if_splits option.splits)
  qed
qed

lemma attempts_answer:
  "attempts m rs c e st api = Some (r, s1, api1) \<Longrightarrow> s1 = pre @ (Request e', s) # rest \<Longrightarrow>
   (api ! length (requests (map fst pre))) c e' = Bars bars \<Longrightarrow> rest = [] \<and> r = Fetched bars"
proof (induction rs arbitrary: api s1 pre)
  case Nil
  then show ?case by simp
next
  case (Cons retry rs)
  show ?case
  proof (cases api)
    case Nil
    with Cons.prems show ?thesis by simp
  next
    case api: (Cons call api0)
    show ?thesis
    proof (cases "call c e")
      case (Bars bs)
      with Cons.prems api show ?thesis by (auto simp: Cons_eq_append_conv)
    next
      case (Naive bs)
      with Cons.prems api show ?thesis by (auto simp: Cons_eq_append_conv)
    next
      case Raises
      show ?thesis
      proof (cases "retry < m - 1")
        case False
        with Cons.prems api Raises show ?thesis by (auto simp: Cons_eq_append_conv)
      next
        case True
        with Cons.prems(1) api Raises obtain s0 where
          s0: "attempts m rs c e st api0 = Some (r, s0, api1)"
          and s1: "s1 = (Request e, st) # (Sleep (1000 * 2 ^ retry), st) # s0"
          by (auto split: option.splits)
        show ?thesis
        proof (cases pre)
          case Nil
          with Cons.prems(2,3) s1 api Raises show ?thesis by simp
        next
          case (Cons p1 pre1)
          with Cons.prems(2) s1 have p1: "p1 = (Request e, st)"
            and "(Sleep (1000 * 2 ^ retry), st) # s0 = pre1 @ (Request e', s) # rest" by simp_all
          then obtain pre2 where pre1: "pre1 = (Sleep (1000 * 2 ^ retry), st) # pre2"
            and dec: "s0 = pre2 @ (Request e', s) # rest"
            by (cases pre1) auto
          from Cons.prems(3) \<open>pre = p1 # pre1\<close> p1 pre1 api
          have "(api0 ! length (requests (map fst pre2))) c e' = Bars bars" by simp
          from Cons.IH [OF s0 dec this] show ?thesis .
        qed
      qed
    qed
  qed
qed

lemma split_at_request:
  assumes "xs @ ys = pre @ (Request e, s) # rest"
  shows "(\<exists>rest1. xs = pre @ (Request e, s) # rest1 \<and> rest = rest1 @ ys)
       \<or> (\<exists>pre2. pre = xs @ pre2 \<and> ys = pre2 @ (Request e, s) # rest)"
  using assms by (auto simp: append_eq_append_conv2 append_eq_Cons_conv)

lemma page_no_request:
  assumes "page c start st bars = (v, s2, st2)"
  shows "(Request e, s) \<notin> set s2"
  using assms by (cases rule: page_cases) auto

lemma page_requests:
  assumes "page c start st bars = (v, s2, st2)"
  shows "requests (map fst s2) = []"
  using assms by (cases rule: page_cases) auto

lemma fetching_page:
  "fetching m c start e st api = Some (out, steps, st', api') \<Longrightarrow>
   steps = pre @ (Request e', s) # rest \<Longrightarrow>
   (api ! length (requests (map fst pre))) c e' = Bars bars \<Longrightarrow>
   df = filter (\<lambda>b. start \<le> date b) bars \<Longrightarrow> df \<noteq> [] \<Longrightarrow>
   \<exists>st1 st2 rest'.
      rest = (Append (temp_file (localSymbol c)) df, st1) # (Sleep 1100, st1)
               # (Persist (localSymbol c) (min_date df - 60), st2) # rest'
      \<and> log st2 (localSymbol c) = Some (min_date df - 60) \<and> log_file st2 = Some (log st2)
      \<and> (rest' = [] \<or> (\<exists>e''. fst (hd rest') = Request e''))"
proof (induction m c start e st api arbitrary: out steps st' api' pre rule: fetching_rounds)
  case (round m c start e st api)
  have stopped: False
    if "attempts m [0..<m] c e st api = Some (r, steps, api1)" "\<And>bs. r \<noteq> Fetched bs" for r api1
    using attempts_answer [OF that(1) round.prems(2,3)] that(2) by simp
  have first: "\<exists>st1 st2.
      s2 = [(Append (temp_file (localSymbol c)) df, st1), (Sleep 1100, st1),
            (Persist (localSymbol c) (min_date df - 60), st2)]
      \<and> log st2 (localSymbol c) = Some (min_date df - 60) \<and> log_file st2 = Some (log st2)"
    if "page c start st bars = (v, s2, st2')" for v s2 st2'
    using that page_something [OF round.prems(4,5), of c st]
    by (auto simp: json_dump_def to_csv_append_def)
  from round.prems(1) show ?case
  proof (cases rule: fetching_cases)
    case GaveUp
    with stopped [OF GaveUp(1)] show ?thesis by simp
  next
    case Unassigned
    with stopped [OF Unassigned(1)] show ?thesis by simp
  next
    case (Naive bs)
    with stopped [OF Naive(1)] show ?thesis by simp
  next
    case (Break bars0 s1 s2)
    from round.prems(2) Break(4) have "s1 @ s2 = pre @ (Request e', s) # rest" by simp
    from split_at_request [OF this] page_no_request [OF Break(2), of e' s]
    obtain rest1 where s1: "s1 = pre @ (Request e', s) # rest1" and rest: "rest = rest1 @ s2"
      by auto
    from attempts_answer [OF Break(1) s1 round.prems(3)] have "rest1 = []" "bars0 = bars"
      by simp_all
    with first [of Break s2 st'] Break(2) rest show ?thesis by auto
  next
    case (Next bars0 s1 api1 t s2 st2 s3)
    from round.prems(2) Next(4) have "s1 @ (s2 @ s3) = pre @ (Request e', s) # rest" by simp
    from split_at_request [OF this]
    show ?thesis
    proof
      assume "\<exists>rest1. s1 = pre @ (Request e', s) # rest1 \<and> rest = rest1 @ s2 @ s3"
      then obtain rest1 where s1: "s1 = pre @ (Request e', s) # rest1"
        and rest: "rest = rest1 @ s2 @ s3" by blast
      from attempts_answer [OF Next(1) s1 round.prems(3)] have "rest1 = []" "bars0 = bars"
        by simp_all
      moreover from fetching_head [OF Next(3)]
      have "s3 = [] \<or> (\<exists>e''. fst (hd s3) = Request e'')" by blast
      ultimately show ?thesis using first [of "Next t" s2 st2] Next(2) rest by auto
    next
      assume "\<exists>pre2. pre = s1 @ pre2 \<and> s2 @ s3 = pre2 @ (Request e', s) # rest"
      then obtain pre2 where pre: "pre = s1 @ pre2"
        and "s2 @ s3 = pre2 @ (Request e', s) # rest" by blast
      from split_at_request [OF this(2)] page_no_request [OF Next(2), of e' s]
      obtain pre3 where pre2: "pre2 = s2 @ pre3" and s3: "s3 = pre3 @ (Request e', s) # rest"
        by auto
      from attempts_drop [OF Next(1)]
      have n: "length (requests (map fst s1)) \<le> length api"
        and api1: "api1 = drop (length (requests (map fst s1))) api" by simp_all
      from page_requests [OF Next(2)] have "requests (map fst s2) = []" .
      with pre pre2 have "length (requests (map fst pre))
          = length (requests (map fst s1)) + length (requests (map fst pre3))"
        by (simp add: requests_append)
      with round.prems(3) api1 n
      have "(api1 ! length (requests (map fst pre3))) c e' = Bars bars" by simp
      from round.IH [OF Next(1) Next(2) Next(3) s3 this round.prems(4,5)] show ?thesis .
    qed
  qed
qed

text \<open>
  C3. In every run of \<^verbatim>\<open>fetch_contract_data\<close>, take any request of the trace; it is
  answered by the answer of the API at its position among the requests. When that
  answer holds bars (with a time zone) of which some survive the two-year filter, the
  steps right after the request are the append of the surviving bars, the sleep of
  1.1 s and one write of the log with the cursor of the contract at exactly the least
  date of the surviving bars minus 60 seconds; after that write the cursor is in memory
  and the file holds the whole dictionary. Nothing but the next request, or the end of
  the run, follows: one write for each page.
\<close>

theorem checkpoint_after_every_page:
  assumes "fetch_contract_data now c m st api = Some (out, steps, st', api')"
    and "steps = pre @ (Request e, s) # rest"
    and "(api ! length (requests (map fst pre))) c e = Bars bars"
    and "df = filter (\<lambda>b. now - days 730 \<le> date b) bars" and "df \<noteq> []"
  shows "\<exists>st1 st2 rest'.
      rest = (Append (temp_file (localSymbol c)) df, st1) # (Sleep 1100, st1)
               # (Persist (localSymbol c) (min_date df - 60), st2) # rest'
      \<and> log st2 (localSymbol c) = Some (min_date df - 60) \<and> log_file st2 = Some (log st2)
      \<and> (rest' = [] \<or> (\<exists>e''. fst (hd rest') = Request e''))
      \<and> min_date df \<in> date ` set df \<and> list_all (\<lambda>b. min_date df \<le> date b) df"
proof (cases "parse_expiry (lastTradeDateOrContractMonth c)")
  case None
  with assms(1,2) show ?thesis by (simp add: fetch_contract_data_def)
next
  case (Some expiry_date)
  with assms(1) obtain e0 where "fetching m c (now - days 730) e0 st api = Some (out, steps, st', api')"
    by (auto simp: fetch_contract_data_def Let_def)
  from fetching_page [OF this assms(2-5)] min_date_in [OF assms(5)] min_date_least [OF assms(5)]
  show ?thesis by (auto simp: list_all_iff)
qed

theorem checkpoint_after_every_page_witness:
  "\<exists>st1 st2 rest'.
      tl (trace_of (fetch_contract_data today mesz5 3 fresh [answers week, answers []]))
        = (Append ''MESZ5_temp.csv'' week, st1) # (Sleep 1100, st1)
            # (Persist ''MESZ5'' (midnight 2025 12 15 + hms 9 29 0), st2) # rest'
      \<and> log st2 ''MESZ5'' = Some (midnight 2025 12 15 + hms 9 29 0)
      \<and> log_file st2 = Some (log st2)"
proof -
  have a: "([answers week, answers []] ! length (requests (map fst ([] :: nat step list))))
      mesz5 (Some (midnight 2025 12 19 + hms 23 59 59)) = Bars week"
    by (simp add: answers_def week_def calendar_defs)
  have df: "week = filter (\<lambda>b. today - days 730 \<le> date b) week"
    using week_survives by (simp add: two_years_ago_def)
  have ne: "week \<noteq> []" by (simp add: week_def)
  have steps: "[(Request (Some (midnight 2025 12 19 + hms 23 59 59)), fresh),
        (Append ''MESZ5_temp.csv'' week, first_page),
        (Sleep 1100, first_page),
        (Persist ''MESZ5'' (midnight 2025 12 15 + hms 9 29 0), first_done),
        (Request (Some (midnight 2025 12 15 + hms 9 29 0)), first_done)]
      = [] @ (Request (Some (midnight 2025 12 19 + hms 23 59 59)), fresh) #
        [(Append ''MESZ5_temp.csv'' week, first_page),
        (Sleep 1100, first_page),
        (Persist ''MESZ5'' (midnight 2025 12 15 + hms 9 29 0), first_done),
        (Request (Some (midnight 2025 12 15 + hms 9 29 0)), first_done)]" by simp
  have tr: "tl (trace_of (fetch_contract_data today mesz5 3 fresh [answers week, answers []]))
      = [(Append ''MESZ5_temp.csv'' week, first_page),
        (Sleep 1100, first_page),
        (Persist ''MESZ5'' (midnight 2025 12 15 + hms 9 29 0), first_done),
        (Request (Some (midnight 2025 12 15 + hms 9 29 0)), first_done)]"
    by (simp add: first_run trace_of_def)
  have sym: "localSymbol mesz5 = ''MESZ5''" "temp_file ''MESZ5'' = ''MESZ5_temp.csv''"
    by (simp_all add: mesz5_def temp_file_def)
  from checkpoint_after_every_page [OF first_run steps a df ne]
  obtain st1 st2 rest' where
    "[(Append ''MESZ5_temp.csv'' week, first_page),
        (Sleep 1100, first_page),
        (Persist ''MESZ5'' (midnight 2025 12 15 + hms 9 29 0), first_done),
        (Request (Some (midnight 2025 12 15 + hms 9 29 0)), first_done)]
      = (Append ''MESZ5_temp.csv'' week, st1) # (Sleep 1100, st1)
            # (Persist ''MESZ5'' (midnight 2025 12 15 + hms 9 29 0), st2) # rest'"
    "log st2 ''MESZ5'' = Some (midnight 2025 12 15 + hms 9 29 0)"
    "log_file st2 = Some (log st2)"
    unfolding sym week_min by blast
  with tr show ?thesis by metis
qed

subsection \<open>The cursor and the rows already written\<close>

lemma page_checkpoint:
  assumes pg: "page c start st bars = (v, steps, st')"
    and inv: "written st (localSymbol c) = [] \<or>
       (\<exists>t. e = Some t \<and> disk st (localSymbol c) = Some t
          \<and> list_all (\<lambda>b. t \<le> date b) (written st (localSymbol c)))"
    and bars: "\<And>t b. e = Some t \<Longrightarrow> b \<in> set bars \<Longrightarrow> date b \<le> t"
  shows "checkpoint_ok (localSymbol c) st'
     \<and> (\<forall>(ev, s) \<in> set steps. mid_page ev \<or> checkpoint_ok (localSymbol c) s)
     \<and> (\<forall>t'. v = Next t' \<longrightarrow> disk st' (localSymbol c) = Some t'
          \<and> list_all (\<lambda>b. t' \<le> date b) (written st' (localSymbol c)))"
  using pg
proof (cases rule: page_cases)
  case Nothing
  with inv show ?thesis by (auto simp: checkpoint_ok_def split: option.splits)
next
  case (Something df st1 t')
  have w: "written st' (localSymbol c) = written st (localSymbol c) @ df"
    using Something(4,5) by (simp add: written_def to_csv_append_def json_dump_def split: option.splits)
  have d: "disk st' (localSymbol c) = Some t'"
    using Something(5) by (simp add: disk_def json_dump_def)
  from Something(2) obtain b0 where b0: "b0 \<in> set df" by (cases df) auto
  have new: "list_all (\<lambda>b. t' \<le> date b) df"
    using min_date_least [OF Something(2)] Something(3) by (fastforce simp: list_all_iff)
  have old: "list_all (\<lambda>b. t' \<le> date b) (written st (localSymbol c))"
  proof (cases "written st (localSymbol c) = []")
    case True
    then show ?thesis by simp
  next
    case False
    with inv obtain t where t: "e = Some t" "list_all (\<lambda>b. t \<le> date b) (written st (localSymbol c))"
      by blast
    from b0 Something(1) have "b0 \<in> set bars" by simp
    from bars [OF t(1) this] min_date_least [OF Something(2) b0] Something(3) have "t' \<le> t" by simp
    with t(2) show ?thesis by (fastforce simp: list_all_iff)
  qed
  from old new w have all: "list_all (\<lambda>b. t' \<le> date b) (written st' (localSymbol c))" by simp
  with d have ok: "checkpoint_ok (localSymbol c) st'" by (simp add: checkpoint_ok_def)
  from Something(7) have "v = Next t'' \<Longrightarrow> t'' = t'" for t'' by (simp split: if_splits)
  with ok all d Something(6) show ?thesis by auto
qed

lemma fetching_checkpoint:
  "fetching m c start e st api = Some (out, steps, st', api') \<Longrightarrow>
   written st (localSymbol c) = [] \<or>
     (\<exists>t. e = Some t \<and> disk st (localSymbol c) = Some t
        \<and> list_all (\<lambda>b. t \<le> date b) (written st (localSymbol c))) \<Longrightarrow>
   \<forall>call \<in> set api. honours call \<Longrightarrow>
   checkpoint_ok (localSymbol c) st'
     \<and> (\<forall>(ev, s) \<in> set steps. mid_page ev \<or> checkpoint_ok (localSymbol c) s)"
proof (induction m c start e st api arbitrary: out steps st' api' rule: fetching_rounds)
  case (round m c start e st api)
  from round.prems(2) have ok: "checkpoint_ok (localSymbol c) st"
    by (auto simp: checkpoint_ok_def split: option.splits)
  have quiet: "\<forall>(ev, s) \<in> set s1. mid_page ev \<or> checkpoint_ok (localSymbol c) s"
    if "attempts m [0..<m] c e st api = Some (r, s1, api1)" for r s1 api1
    using attempts_stores [OF that] ok by auto
  have bars: "date b \<le> t"
    if "attempts m [0..<m] c e st api = Some (Fetched bars, s1, api1)" "e = Some t" "b \<in> set bars"
    for bars s1 api1 t b
    using honoured_bars [OF round.prems(3) that(1) [unfolded that(2)] that(3)] .
  from round.prems(1) show ?case
  proof (cases rule: fetching_cases)
    case GaveUp
    with ok quiet [OF GaveUp(1)] show ?thesis by simp
  next
    case Unassigned
    with ok quiet [OF Unassigned(1)] show ?thesis by simp
  next
    case (Naive bars)
    with ok quiet [OF Naive(1)] show ?thesis by simp
  next
    case (Break bars s1 s2)
    from page_checkpoint [OF Break(2) round.prems(2) bars [OF Break(1)]] quiet [OF Break(1)] Break(4)
    show ?thesis by auto
  next
    case (Next bars s1 api1 t s2 st2 s3)
    note pc = page_checkpoint [OF Next(2) round.prems(2) bars [OF Next(1)]]
    then have inv2: "written st2 (localSymbol c) = [] \<or>
       (\<exists>t'. Some t = Some t' \<and> disk st2 (localSymbol c) = Some t'
          \<and> list_all (\<lambda>b. t' \<le> date b) (written st2 (localSymbol c)))" by simp
    from attempts_suffix [OF Next(1)] round.prems(3) have honest: "\<forall>call \<in> set api1. honours call"
      by auto
    from round.IH [OF Next(1) Next(2) Next(3) inv2 honest] pc quiet [OF Next(1)] Next(4)
    show ?thesis by auto
  qed
qed

text \<open>
  C2, as the claim has it (at every state, between the steps of a page too), fails: in
  the resumed run the rows of the page are in the file before the cursor is moved, so
  after the append and during the sleep the file holds rows older than the stored
  cursor. And when the API answers with a bar after the end time asked for, or when
  the file has rows of an earlier run and the log has no cursor, the cursor written at
  the end of the page is after a row of the file.
\<close>

theorem cursor_above_rows_counterexample:
  "map (checkpoint_ok ''MESZ5'' \<circ> snd)
     (trace_of (fetch_contract_data today mesz5 3 (load_log resumed) [answers week, answers []]))
   = [True, False, False, True, True]
   \<and> map (checkpoint_ok ''MESZ5'' \<circ> snd)
     (trace_of (fetch_contract_data today mesz5 3 (load_log resumed) [ignores late, answers []]))
   = [True, True, True, False, False]
   \<and> map (checkpoint_ok ''MESZ5'' \<circ> snd)
     (trace_of (fetch_contract_data today mesz5 3 (load_log orphaned) [answers week, answers []]))
   = [True, True, True, False, False]"
proof -
  have "checkpoint_ok ''MESZ5'' (load_log resumed)"
    by (simp add: checkpoint_ok_def disk_def written_def temp_file_def load_log_def resumed_def
        calendar_defs)
  moreover have "\<not> checkpoint_ok ''MESZ5'' resumed_page"
    by (simp add: checkpoint_ok_def disk_def written_def temp_file_def resumed_page_def week_def
        calendar_defs)
  moreover have "checkpoint_ok ''MESZ5'' resumed_done"
    by (simp add: checkpoint_ok_def disk_def written_def temp_file_def resumed_done_def week_def
        calendar_defs)
  moreover have "map (checkpoint_ok ''MESZ5'' \<circ> snd)
     (trace_of (fetch_contract_data today mesz5 3 (load_log resumed) [ignores late, answers []]))
   = [True, True, True, False, False]"
    by (simp add: trace_of_def run_defs mesz5_expiry answers_def ignores_def late_def
        resumed_def load_log_def today_def calendar_defs)
       (simp add: mesz5_def checkpoint_ok_def disk_def written_def temp_file_def)
  moreover have "map (checkpoint_ok ''MESZ5'' \<circ> snd)
     (trace_of (fetch_contract_data today mesz5 3 (load_log orphaned) [answers week, answers []]))
   = [True, True, True, False, False]"
    by (simp add: trace_of_def run_defs mesz5_expiry answers_def week_def orphaned_def
        load_log_def today_def calendar_defs)
       (simp add: mesz5_def checkpoint_ok_def disk_def written_def temp_file_def)
  ultimately show ?thesis by (simp add: resumed_run trace_of_def)
qed

text \<open>
  C2, amended. Let the run start from a store in which memory and log file agree and
  the contract is resumable, and let no answer of the API hold a bar after the
  requested end time. Then the stored cursor is at most the date of every row written
  for the contract after every step that does not leave a page half done (every
  request, every sleep of the retry loop, every write of the log), and at the end of
  the run. After the append of a page and during its sleep of 1.1 s nothing is claimed.
\<close>

theorem cursor_below_rows_after_each_page:
  assumes "synced st" and "resumable (localSymbol c) st"
    and "\<forall>call \<in> set api. honours call"
    and "fetch_contract_data now c m st api = Some (out, steps, st', api')"
  shows "checkpoint_ok (localSymbol c) st'
     \<and> (\<forall>(ev, s) \<in> set steps. mid_page ev \<or> checkpoint_ok (localSymbol c) s)"
proof (cases "parse_expiry (lastTradeDateOrContractMonth c)")
  case None
  with assms(1,2,4) show ?thesis
    by (auto simp: fetch_contract_data_def checkpoint_ok_def resumable_def synced_def
        split: option.splits)
next
  case (Some expiry_date)
  with assms(4) obtain e where run: "fetching m c (now - days 730) e st api = Some (out, steps, st', api')"
    and e: "log st (localSymbol c) \<noteq> None \<Longrightarrow> e = log st (localSymbol c)"
    by (auto simp: fetch_contract_data_def Let_def)
  have "written st (localSymbol c) = [] \<or>
     (\<exists>t. e = Some t \<and> disk st (localSymbol c) = Some t
        \<and> list_all (\<lambda>b. t \<le> date b) (written st (localSymbol c)))"
  proof (cases "log st (localSymbol c)")
    case None
    with assms(2) show ?thesis by (simp add: resumable_def)
  next
    case (Some t)
    with assms(1,2) e show ?thesis by (auto simp: resumable_def synced_def)
  qed
  from fetching_checkpoint [OF run this assms(3)] show ?thesis .
qed

theorem cursor_below_rows_after_each_page_witness:
  "checkpoint_ok ''MESZ5'' resumed_done \<and> checkpoint_ok ''MESZ5'' (load_log resumed)"
proof -
  have r: "resumable (localSymbol mesz5) (load_log resumed)"
    by (simp add: resumable_def written_def temp_file_def load_log_def resumed_def mesz5_def
        calendar_defs)
  have h: "\<forall>call \<in> set [answers week, answers []]. honours call"
    by (simp add: honours_answers)
  from cursor_below_rows_after_each_page [OF synced_load_log r h resumed_run] show ?thesis
    by (simp add: mesz5_def)
qed

end
